theory Spec2Isabelle
  imports Main
begin

section \<open>Integers, memory and loops of the C++ source\<close>

text \<open>
  The source computes with C++ \<^verbatim>\<open>int\<close>.  Overflow of signed arithmetic is undefined
  there, so arithmetic is that of the mathematical integers and the model covers the
  runs in which every result of \<^verbatim>\<open>+\<close>, \<^verbatim>\<open>-\<close> and \<^verbatim>\<open>*\<close> fits.
  The operator \<^verbatim>\<open>/\<close> truncates towards zero and a zero divisor is undefined behaviour:
  \<open>c_div\<close> returns \<open>None\<close> there.
\<close>

definition c_div :: "int \<Rightarrow> int \<Rightarrow> int option" where
  "c_div a b = (if b = 0 then None else Some (sgn a * sgn b * (\<bar>a\<bar> div \<bar>b\<bar>)))"

text \<open>The operator \<^verbatim>\<open>%\<close>: the remainder that goes with the truncating quotient.\<close>

definition c_mod :: "int \<Rightarrow> int \<Rightarrow> int option" where
  "c_mod a b = (case c_div a b of None \<Rightarrow> None | Some q \<Rightarrow> Some (a - b * q))"

text \<open>
  The conversion of an \<^verbatim>\<open>int64_t\<close> to \<^verbatim>\<open>int\<close>, as in \<^verbatim>\<open>int seqLen = dims[2]\<close>.  It is not
  an overflow: the value is reduced modulo \<open>2^32\<close> into the range of \<^verbatim>\<open>int\<close>, from
  \<open>- 2^31\<close> to \<open>2^31 - 1\<close>.
\<close>

definition to_int :: "int \<Rightarrow> int" where
  "to_int x = (x + 2147483648) mod 4294967296 - 2147483648"

text \<open>
  A buffer is a store from element offsets to values; an offset stands for the pointer
  \<^verbatim>\<open>base + offset\<close>.  \<^verbatim>\<open>memcpy(dst, src, n)\<close> copies \<open>n\<close> elements.  A negative count
  (which the conversion to \<^verbatim>\<open>size_t\<close> would turn into a huge one) and overlapping
  regions are undefined behaviour: \<open>None\<close>.
\<close>

type_synonym 'a mem = "int \<Rightarrow> 'a"

definition memcpy :: "'a mem \<Rightarrow> int \<Rightarrow> int \<Rightarrow> int \<Rightarrow> 'a mem option" where
  "memcpy m dst src n =
     (if n < 0 \<or> (0 < n \<and> \<bar>dst - src\<bar> < n) then None
      else Some (\<lambda>a. if dst \<le> a \<and> a < dst + n then m (src + (a - dst)) else m a))"

text \<open>
  \<^verbatim>\<open>for (i ...) body\<close> over the listed index values, in order; the loop stops with
  \<open>None\<close> as soon as one iteration is undefined.
\<close>

primrec for_each :: "'i list \<Rightarrow> ('i \<Rightarrow> 's \<Rightarrow> 's option) \<Rightarrow> 's \<Rightarrow> 's option" where
  "for_each [] body s = Some s"
| "for_each (i # is) body s = (case body i s of None \<Rightarrow> None | Some s' \<Rightarrow> for_each is body s')"

section \<open>Parallel topology: \<^verbatim>\<open>init\<close>\<close>

text \<open>
  \<^verbatim>\<open>*world_color = *world_rank / (*world_size / *world_color)\<close>, where \<^verbatim>\<open>*world_color\<close>
  holds the number of pipeline stages on entry.
\<close>

definition world_color :: "int \<Rightarrow> int \<Rightarrow> int \<Rightarrow> int option" where
  "world_color world_size world_rank pp_num =
     (case c_div world_size pp_num of
        None \<Rightarrow> None
      | Some tp_num \<Rightarrow> c_div world_rank tp_num)"

text \<open>
  \<^verbatim>\<open>MPI_Comm_split(MPI_COMM_WORLD, color, key = world_rank, &row_comm)\<close>, seen from the
  process \<open>me\<close>: the new communicator holds the world ranks whose color equals the
  caller's, ordered by key, which here is the world rank itself.  The communicator is the
  list of its members' world ranks in the order of their new ranks.
\<close>

definition MPI_Comm_split :: "int \<Rightarrow> (int \<Rightarrow> 'c) \<Rightarrow> int \<Rightarrow> int list" where
  "MPI_Comm_split world_size color me = filter (\<lambda>r. color r = color me) [0..world_size - 1]"

definition MPI_Comm_size :: "int list \<Rightarrow> int" where
  "MPI_Comm_size comm = int (length comm)"

definition MPI_Comm_rank :: "int list \<Rightarrow> int \<Rightarrow> int" where
  "MPI_Comm_rank comm me = int (length (takeWhile (\<lambda>r. r \<noteq> me) comm))"

text \<open>
  \<open>init\<close> on the process of world rank \<open>world_rank\<close> among \<open>world_size\<close> processes that all
  pass the same stage count.  The result is what the three out-parameters hold on
  return: the size and the rank of the row communicator (the oneCCL communicator is
  created with exactly these) and the color.
\<close>

definition init :: "int \<Rightarrow> int \<Rightarrow> int \<Rightarrow> (int \<times> int \<times> int) option" where
  "init world_size world_rank pp_num =
     (case world_color world_size world_rank pp_num of
        None \<Rightarrow> None
      | Some color \<Rightarrow>
          (let row_comm = MPI_Comm_split world_size (\<lambda>r. world_color world_size r pp_num) world_rank;
               row_size = MPI_Comm_size row_comm;
               row_rank = MPI_Comm_rank row_comm world_rank
           in Some (row_size, row_rank, color)))"

section \<open>The decoder and its collaborators\<close>

text \<open>
  The token ids of a call are a list.  \<open>slice xs off n\<close> reads the \<open>n\<close> elements at
  \<^verbatim>\<open>xs + off\<close>; reading outside the array, or a negative count, is undefined.
\<close>

definition slice :: "'a list \<Rightarrow> int \<Rightarrow> int \<Rightarrow> 'a list option" where
  "slice xs off n =
     (if 0 \<le> off \<and> 0 \<le> n \<and> off + n \<le> int (length xs)
      then Some (take (nat n) (drop (nat off) xs)) else None)"

text \<open>
  Lines 274--279 of \<^verbatim>\<open>forward\<close>: the two \<^verbatim>\<open>memcpy\<close> calls of iteration \<open>bs\<close> fill row
  \<open>bs\<close> of the freshly allocated \<^verbatim>\<open>prefixIDs\<close> and \<^verbatim>\<open>newIDs\<close>.  The rows are written in
  order and back to back, so each buffer is built by appending its next row.
\<close>

definition split_ids :: "int list \<Rightarrow> int \<Rightarrow> int \<Rightarrow> int \<Rightarrow> int \<Rightarrow> (int list \<times> int list) option" where
  "split_ids ids userSideBS seqLen pastSeqLen inputSeqLen =
     for_each [0..userSideBS - 1]
       (\<lambda>bs (prefixIDs, newIDs).
          case slice ids (seqLen * bs) pastSeqLen of
            None \<Rightarrow> None
          | Some prefixRow \<Rightarrow>
              (case slice ids (seqLen * bs + pastSeqLen) inputSeqLen of
                 None \<Rightarrow> None
               | Some newRow \<Rightarrow> Some (prefixIDs @ prefixRow, newIDs @ newRow)))
       ([], [])"

datatype fatal = Exit int | Undefined

record Messenger =
  getSize :: int
  getRank :: int
  getColor :: int

text \<open>The fields of \<^verbatim>\<open>DecoderContext\<close> that \<^verbatim>\<open>CommonDecoder\<close> reads.\<close>

record DecoderContext =
  hiddenSize :: int
  attHeadNum :: int
  kvHeadNum :: int
  intermediateSize :: int
  splitIdx :: int

text \<open>
  The integer arguments of \<^verbatim>\<open>getDecoderContext\<close>.  Its other arguments (the activation
  name, epsilon, the rope parameters) are only handed on to the constructor of
  \<^verbatim>\<open>DecoderContext\<close>.
\<close>

record ContextArgs =
  arg_layers :: int
  arg_hiddenSize :: int
  arg_attHeadNum :: int
  arg_kvHeadNum :: int
  arg_imSize :: int
  arg_vocabSize :: int
  arg_embeddingSize :: int
  arg_maxPositions :: int
  arg_maxPosEmbed :: int
  arg_maxSeqLength :: int

text \<open>The predictor \<^verbatim>\<open>DistLinear\<close>: its share of the vocabulary.\<close>

record DistLinear =
  getSplitOffset :: int
  getSplitSize :: int

text \<open>
  A pointer handed to a collaborator: into the activation buffer
  (\<^verbatim>\<open>actBuffers->Data() + offset\<close>) or the context's \<^verbatim>\<open>tmpBuf\<close>.
\<close>

datatype ptr = ActBuf int | TmpBuf

text \<open>
  The communicator of the two MPI calls of \<^verbatim>\<open>forward\<close>: a rank handed to them is a rank
  among all processes.
\<close>

datatype MPI_Comm = MPI_COMM_WORLD

text \<open>
  The calls \<^verbatim>\<open>forward\<close> makes to code outside the class (the context, the virtual
  methods of the model, MPI, the KV cache manager, the messenger, the decoder layers and
  the predictor), with the arguments the orchestration decides.
\<close>

datatype call =
    ctx_resize int int int
  | getPositionIds "int list" int int int
  | prepareBuffers int int bool
  | embeddingForward "int list" ptr int int
  | prepareAttnMask "int list" int
  | MPI_Recv ptr int int int MPI_Comm
  | expandPrefixCache int int int
  | forwardAttention int ptr ptr ptr int int bool
  | expandCache int int int int
  | reduceAdd ptr ptr int
  | forwardFFN int ptr ptr
  | MPI_Send ptr int int int MPI_Comm
  | lastLayerNormForward ptr ptr int
  | predictor_forward ptr ptr int

text \<open>
  What lies outside the source files: the configured number of pipeline stages, the
  constructors of the context, the predictor, the KV cache manager and the activation
  matrix, and \<open>kernel\<close>, the effect of each call on the activation buffer and the KV
  cache.  Every theorem below holds for every such environment.
\<close>

record ('a, 'c) Env =
  getPipeline :: int
  new_DecoderContext :: "ContextArgs \<Rightarrow> int \<Rightarrow> int \<Rightarrow> DecoderContext"
  new_DistLinear :: "int \<Rightarrow> int \<Rightarrow> int \<Rightarrow> int \<Rightarrow> DistLinear"
  new_KVCacheManager :: "int \<Rightarrow> 'c"
  new_Matrix :: "'a mem"
  kernel :: "call \<Rightarrow> 'a mem \<times> 'c \<Rightarrow> 'a mem \<times> 'c"

text \<open>
  Modelled from the spec: the class \<^verbatim>\<open>KVCacheManager\<close> and its tensors
  (\<^verbatim>\<open>kvcache_manager.h\<close>) are not among the source files.  Following section 4.3 of
  the specification, a cache tensor gives, for a time step and a batch-times-beam row,
  the content of that row (all its heads and head dimensions), and the manager holds a
  key tensor and a value tensor for every layer.  Reordering a tensor puts into row
  \<open>row < size\<close> of every time step in \<open>[initSeqLen, accSeqLen)\<close> what row
  \<open>idx[row]\<close> held, and leaves every other time step as it is.
\<close>

type_synonym 'v KVCacheTensor = "int \<Rightarrow> int \<Rightarrow> 'v"

type_synonym 'v KVCacheManager = "('v KVCacheTensor \<times> 'v KVCacheTensor) list"

definition KVCacheTensor_reorder ::
  "int list \<Rightarrow> int \<Rightarrow> int \<Rightarrow> int \<Rightarrow> 'v KVCacheTensor \<Rightarrow> 'v KVCacheTensor" where
  "KVCacheTensor_reorder idx size' initSeqLen accSeqLen t =
     (\<lambda>s row. if initSeqLen \<le> s \<and> s < accSeqLen \<and> 0 \<le> row \<and> row < size'
              then t s (idx ! nat row) else t s row)"

text \<open>
  Modelled from the spec: \<^verbatim>\<open>KVCacheManager::reorderCache\<close>, which is not among the
  source files, reorders the key and the value tensor of every layer.  Its precondition
  is that \<open>idx\<close> has \<open>size\<close> entries, each in \<open>[0, size)\<close>, repetitions allowed; outside
  it the specification defines nothing: \<open>None\<close>.
\<close>

definition KVCacheManager_reorderCache ::
  "'v KVCacheManager \<Rightarrow> int list \<Rightarrow> int \<Rightarrow> int \<Rightarrow> int \<Rightarrow> 'v KVCacheManager option" where
  "KVCacheManager_reorderCache mgr idx size' initSeqLen accSeqLen =
     (if int (length idx) = size' \<and> (\<forall>i\<in>set idx. 0 \<le> i \<and> i < size')
      then Some (map (\<lambda>(keys, values).
                        (KVCacheTensor_reorder idx size' initSeqLen accSeqLen keys,
                         KVCacheTensor_reorder idx size' initSeqLen accSeqLen values)) mgr)
      else None)"

text \<open>
  The members of \<^verbatim>\<open>CommonDecoder\<close>.  \<open>decoder_context\<close> is the member \<^verbatim>\<open>context\<close>
  (\<open>None\<close> is the null pointer), \<open>decoders\<close> holds the layer index each \<^verbatim>\<open>Decoder\<close> was
  built with, \<open>ATTN_MLP_PARALLEL\<close> is the template parameter.
\<close>

record ('a, 'c) CommonDecoder =
  messenger :: Messenger
  pp_size :: int
  pp_rank :: int
  tp_size :: int
  tp_rank :: int
  decoder_context :: "DecoderContext option"
  initSeqLen :: int
  accSeqLen :: int
  prefixSeqLen :: int
  prefixSharing :: bool
  kvCacheMgr :: 'c
  actBuffers :: "'a mem"
  decoders :: "int list"
  predictor :: DistLinear
  ATTN_MLP_PARALLEL :: bool

subsection \<open>\<^verbatim>\<open>getDecoderContext\<close> and the constructor\<close>

definition getDecoderContext ::
  "('a, 'c) Env \<Rightarrow> ('a, 'c) CommonDecoder \<Rightarrow> ContextArgs
     \<Rightarrow> fatal + (DecoderContext \<times> ('a, 'c) CommonDecoder)" where
  "getDecoderContext E this args =
     (let splits = getSize (messenger this);
          splitIdx' = getRank (messenger this);
          this = this\<lparr>pp_size := getPipeline E, pp_rank := getColor (messenger this),
                      tp_size := splits, tp_rank := splitIdx'\<rparr>
      in case decoder_context this of
           Some context \<Rightarrow>
             if hiddenSize context = arg_hiddenSize args \<and> attHeadNum context = arg_attHeadNum args
                \<and> kvHeadNum context = arg_kvHeadNum args \<and> intermediateSize context = arg_imSize args
                \<and> splitIdx context = splitIdx'
             then Inr (context, this)
             else Inl (Exit (- 1))
         | None \<Rightarrow>
             (let context = new_DecoderContext E args splitIdx' splits
              in Inr (context, this\<lparr>decoder_context := Some context\<rparr>)))"

text \<open>The values the constructor reads from \<^verbatim>\<open>config.ini\<close>, by their keys.\<close>

record config =
  head_num :: int
  kv_head_num :: int
  size_per_head :: int
  inter_size :: int
  num_layer :: int
  vocab_size :: int
  max_pos_seq_len :: int
  model_max_length :: int
  seq_length :: int

text \<open>
  The constructor, for the messenger and the template parameter given.  It returns
  whether the warning of line 216 was printed, and the object.  The members are given
  their constructor values in one record: nothing in the constructor reads the
  predictor or the KV cache manager before line 231 and line 235 set them.  Loading the
  weights of each layer (from files) is not part of the model.
\<close>

definition CommonDecoder ::
  "('a, 'c) Env \<Rightarrow> Messenger \<Rightarrow> bool \<Rightarrow> config \<Rightarrow> fatal + (bool \<times> ('a, 'c) CommonDecoder)" where
  "CommonDecoder E msgr par cfg =
     (let layers = num_layer cfg;
          hidden = head_num cfg * size_per_head cfg;
          args = \<lparr>arg_layers = layers, arg_hiddenSize = hidden, arg_attHeadNum = head_num cfg,
                   arg_kvHeadNum = kv_head_num cfg, arg_imSize = inter_size cfg,
                   arg_vocabSize = vocab_size cfg, arg_embeddingSize = hidden,
                   arg_maxPositions = model_max_length cfg, arg_maxPosEmbed = max_pos_seq_len cfg,
                   arg_maxSeqLength = seq_length cfg\<rparr>;
          this = \<lparr>messenger = msgr, pp_size = 1, pp_rank = 0, tp_size = 1, tp_rank = 0,
                   decoder_context = None, initSeqLen = 0, accSeqLen = 0, prefixSeqLen = 0,
                   prefixSharing = False, kvCacheMgr = new_KVCacheManager E layers,
                   actBuffers = new_Matrix E, decoders = [],
                   predictor = new_DistLinear E hidden (vocab_size cfg) (getRank msgr) (getSize msgr),
                   ATTN_MLP_PARALLEL = par\<rparr>
      in case getDecoderContext E this args of
           Inl e \<Rightarrow> Inl e
         | Inr (ctx, this) \<Rightarrow>
             (case c_mod layers (pp_size this) of
                None \<Rightarrow> Inl Undefined
              | Some remainder \<Rightarrow>
                  (case c_div layers (pp_size this) of
                     None \<Rightarrow> Inl Undefined
                   | Some layers_per_pp_stage \<Rightarrow>
                       (let start_layer = pp_rank this * layers_per_pp_stage
                        in Inr (remainder \<noteq> 0,
                                this\<lparr>decoders := [start_layer..start_layer + layers_per_pp_stage - 1]\<rparr>)))))"

subsection \<open>\<^verbatim>\<open>forward\<close>\<close>

text \<open>
  The local variables of one \<^verbatim>\<open>forward\<close> call.  \<open>ids\<close> is the array \<^verbatim>\<open>ids\<close> points to,
  \<open>ctx\<close> the context \<^verbatim>\<open>getContext()\<close> returns.
\<close>

record frame =
  userSideBS :: int
  beamSize :: int
  batchSize :: int
  seqLen :: int
  pastSeqLen :: int
  inputSeqLen :: int
  ids :: "int list"
  ctx :: DecoderContext
  step :: int
  logitsAll :: bool

text \<open>
  A run is the object together with the calls made so far.  \<open>invoke\<close> makes a call: it
  is appended to the trace, and the activation buffer and the KV cache become what the
  callee leaves.
\<close>

type_synonym ('a, 'c) run = "('a, 'c) CommonDecoder \<times> call list"

definition invoke :: "('a, 'c) Env \<Rightarrow> call \<Rightarrow> ('a, 'c) run \<Rightarrow> ('a, 'c) run" where
  "invoke E c r =
     (case r of (this, trace) \<Rightarrow>
        (case kernel E c (actBuffers this, kvCacheMgr this) of (m, kv) \<Rightarrow>
           (this\<lparr>actBuffers := m, kvCacheMgr := kv\<rparr>, trace @ [c])))"

text \<open>
  \<^verbatim>\<open>embBuf = actBuffers->Data()\<close> and
  \<^verbatim>\<open>outBuf = embBuf + batchSize * inputSeqLen * ctx->hiddenSize\<close>, as offsets.
\<close>

definition embBuf :: int where
  "embBuf = 0"

definition outBuf :: "frame \<Rightarrow> int" where
  "outBuf f = embBuf + batchSize f * inputSeqLen f * hiddenSize (ctx f)"

text \<open>Lines 271--285: the branch taken at step 0 when prefix sharing is on.\<close>

definition split_prefix :: "('a, 'c) Env \<Rightarrow> frame \<Rightarrow> ('a, 'c) run \<Rightarrow> (frame \<times> ('a, 'c) run) option" where
  "split_prefix E f r =
     (let f = f\<lparr>pastSeqLen := prefixSeqLen (fst r)\<rparr>;
          f = f\<lparr>inputSeqLen := seqLen f - pastSeqLen f\<rparr>
      in case split_ids (ids f) (userSideBS f) (seqLen f) (pastSeqLen f) (inputSeqLen f) of
           None \<Rightarrow> None
         | Some (prefixIDs, newIDs) \<Rightarrow>
             (let r = invoke E (getPositionIds prefixIDs (batchSize f) (pastSeqLen f) 0) r;
                  f = f\<lparr>ids := newIDs\<rparr>;
                  r = invoke E (ctx_resize (batchSize f) (inputSeqLen f) (pastSeqLen f)) r
              in Some (f, r)))"

text \<open>Lines 266--290: the body of \<^verbatim>\<open>if (step == 0)\<close>.\<close>

definition first_step :: "('a, 'c) Env \<Rightarrow> frame \<Rightarrow> ('a, 'c) run \<Rightarrow> (frame \<times> ('a, 'c) run) option" where
  "first_step E f r =
     (let r = apfst (\<lambda>this. this\<lparr>initSeqLen := seqLen f, accSeqLen := 0\<rparr>) r
      in case (if prefixSharing (fst r) then split_prefix E f r else Some (f, r)) of
           None \<Rightarrow> None
         | Some (f, r) \<Rightarrow>
             Some (f, invoke E (prepareBuffers (userSideBS f) (beamSize f) (logitsAll f)) r))"

text \<open>
  Lines 255--313: from the entry of \<^verbatim>\<open>forward\<close> to the position ids.  \<open>dims\<close> is the
  triple \<^verbatim>\<open>dims[0], dims[1], dims[2]\<close> of \<^verbatim>\<open>int64_t\<close> values; lines 255--258 convert
  them to the \<^verbatim>\<open>int\<close> locals \<open>userSideBS\<close>, \<open>beamSize\<close> and \<open>seqLen\<close>.  A null context
  makes \<^verbatim>\<open>ctx->resize\<close> undefined.
\<close>

definition forward_embedding ::
  "('a, 'c) Env \<Rightarrow> ('a, 'c) CommonDecoder \<Rightarrow> int list \<Rightarrow> int \<times> int \<times> int \<Rightarrow> int \<Rightarrow> bool
     \<Rightarrow> (frame \<times> ('a, 'c) run) option" where
  "forward_embedding E this ids0 dims step0 logitsAll0 =
     (case dims of (dims0, dims1, dims2) \<Rightarrow>
        (case decoder_context this of
           None \<Rightarrow> None
         | Some context \<Rightarrow>
             (let f = \<lparr>userSideBS = to_int dims0, beamSize = to_int dims1,
                       batchSize = (if step0 = 0 then to_int dims0 else to_int dims0 * to_int dims1),
                       seqLen = to_int dims2,
                       pastSeqLen = (if step0 = 0 then 0 else accSeqLen this),
                       inputSeqLen = to_int dims2, ids = ids0, ctx = context, step = step0,
                       logitsAll = logitsAll0\<rparr>;
                  r = invoke E (ctx_resize (batchSize f) (seqLen f) (pastSeqLen f)) (this, [])
              in case (if step f = 0 then first_step E f r else Some (f, r)) of
                   None \<Rightarrow> None
                 | Some (f, r) \<Rightarrow>
                     (let r = invoke E (embeddingForward (ids f) (ActBuf embBuf) (batchSize f) (inputSeqLen f)) r;
                          r = apfst (\<lambda>this. this\<lparr>accSeqLen := accSeqLen this + seqLen f\<rparr>) r;
                          sharing = (if prefixSharing (fst r) then 1 else 0);
                          r = invoke E (prepareAttnMask (ids f) (step f + sharing)) r;
                          r = invoke E (getPositionIds (ids f) (batchSize f) (inputSeqLen f) (step f + sharing)) r
                      in Some (f, r)))))"

text \<open>Lines 325--372: the body of the loop over the decoder layers, for index \<open>i\<close>.\<close>

definition decoder_layer :: "('a, 'c) Env \<Rightarrow> frame \<Rightarrow> int \<Rightarrow> ('a, 'c) run \<Rightarrow> ('a, 'c) run" where
  "decoder_layer E f i r =
     (let this = fst r;
          workers = getSize (messenger this);
          count = batchSize f * inputSeqLen f * hiddenSize (ctx f);
          r = (if step f = 0 \<and> prefixSharing this
               then invoke E (expandPrefixCache i (userSideBS f) (prefixSeqLen this)) r else r);
          r = invoke E (forwardAttention i (ActBuf embBuf) (ActBuf (outBuf f)) TmpBuf
                          (inputSeqLen f) (pastSeqLen f) (step f = 0)) r;
          r = (if step f = 0 \<and> beamSize f > 1
               then invoke E (expandCache i (userSideBS f) (beamSize f) (seqLen f)) r else r);
          r = (if \<not> ATTN_MLP_PARALLEL this \<and> workers > 1
               then invoke E (reduceAdd TmpBuf TmpBuf count) r else r)
      in if ATTN_MLP_PARALLEL this then
           (if workers > 1
            then invoke E (reduceAdd (ActBuf (outBuf f)) (ActBuf embBuf) count)
                   (invoke E (forwardFFN i (ActBuf embBuf) (ActBuf (outBuf f))) r)
            else invoke E (forwardFFN i (ActBuf embBuf) (ActBuf embBuf)) r)
         else
           (if workers > 1
            then invoke E (reduceAdd (ActBuf (outBuf f)) (ActBuf embBuf) count)
                   (invoke E (forwardFFN i TmpBuf (ActBuf (outBuf f))) r)
            else invoke E (forwardFFN i TmpBuf (ActBuf embBuf)) r))"

text \<open>Lines 249--373: \<^verbatim>\<open>forward\<close> up to the end of the loop over the layers.\<close>

definition forward_layers ::
  "('a, 'c) Env \<Rightarrow> ('a, 'c) CommonDecoder \<Rightarrow> int list \<Rightarrow> int \<times> int \<times> int \<Rightarrow> int \<Rightarrow> bool
     \<Rightarrow> (frame \<times> ('a, 'c) run) option" where
  "forward_layers E this ids0 dims step0 logitsAll0 =
     (case forward_embedding E this ids0 dims step0 logitsAll0 of
        None \<Rightarrow> None
      | Some (f, r) \<Rightarrow>
          (let r = (if pp_rank (fst r) > 0
                    then invoke E (MPI_Recv (ActBuf embBuf) (batchSize f * inputSeqLen f * hiddenSize (ctx f))
                                     (pp_rank (fst r) - 1) (100 * (pp_rank (fst r) - 1)) MPI_COMM_WORLD) r
                    else r);
               layers_per_pp_stage = int (length (decoders (fst r)))
           in Some (f, fold (decoder_layer E f) [0..layers_per_pp_stage - 1] r)))"

text \<open>
  Lines 384--392: the input of the final layer norm.  The result is \<^verbatim>\<open>lnIn\<close> and the
  activation buffer.  The iterations of the parallel loop write disjoint rows and read
  rows none of them writes, so they are run in index order.
\<close>

definition prepare_lnIn :: "frame \<Rightarrow> 'a mem \<Rightarrow> (int \<times> 'a mem) option" where
  "prepare_lnIn f m =
     (if inputSeqLen f > 1 \<and> \<not> logitsAll f then
        (case for_each [0..batchSize f - 1]
                (\<lambda>b m. memcpy m (outBuf f + b * hiddenSize (ctx f))
                           (embBuf + ((b + 1) * inputSeqLen f - 1) * hiddenSize (ctx f))
                           (hiddenSize (ctx f))) m of
           None \<Rightarrow> None
         | Some m' \<Rightarrow> Some (outBuf f, m'))
      else Some (embBuf, m))"

text \<open>Lines 249--392, entered on the last stage only: \<^verbatim>\<open>lnIn\<close> is ready.\<close>

definition forward_lnIn ::
  "('a, 'c) Env \<Rightarrow> ('a, 'c) CommonDecoder \<Rightarrow> int list \<Rightarrow> int \<times> int \<times> int \<Rightarrow> int \<Rightarrow> bool
     \<Rightarrow> (int \<times> frame \<times> ('a, 'c) run) option" where
  "forward_lnIn E this ids0 dims step0 logitsAll0 =
     (case forward_layers E this ids0 dims step0 logitsAll0 of
        None \<Rightarrow> None
      | Some (f, r) \<Rightarrow>
          (case prepare_lnIn f (actBuffers (fst r)) of
             None \<Rightarrow> None
           | Some (lnIn, m) \<Rightarrow> Some (lnIn, f, apfst (\<lambda>this. this\<lparr>actBuffers := m\<rparr>) r)))"

text \<open>Lines 249--416: the final layer norm and the predictor have run.\<close>

definition forward_logits ::
  "('a, 'c) Env \<Rightarrow> ('a, 'c) CommonDecoder \<Rightarrow> int list \<Rightarrow> int \<times> int \<times> int \<Rightarrow> int \<Rightarrow> bool
     \<Rightarrow> (frame \<times> ('a, 'c) run) option" where
  "forward_logits E this ids0 dims step0 logitsAll0 =
     (case forward_lnIn E this ids0 dims step0 logitsAll0 of
        None \<Rightarrow> None
      | Some (lnIn, f, r) \<Rightarrow>
          (let lnOut = embBuf;
               rows = (if \<not> logitsAll f then batchSize f else batchSize f * seqLen f);
               r = invoke E (lastLayerNormForward (ActBuf lnIn) (ActBuf lnOut) rows) r;
               finalOut = outBuf f;
               r = invoke E (predictor_forward (ActBuf lnOut) (ActBuf finalOut) rows) r
           in Some (f, r)))"

text \<open>
  Lines 424--436: the logits of step 0 are expanded to cover the beams.  The iterations
  of the inner parallel loop write disjoint rows and read a row none of them writes.
  The store has no size of its own: whether the \<open>userSideBS * beamSize\<close> rows written
  here lie inside the buffer is decided by \<^verbatim>\<open>prepareBuffers\<close>, which is called with the
  same \<open>logitsAll\<close> at step 0.  At line 732 it asks for \<open>userSideBS * beamSize\<close> rows of
  logits when \<open>logitsAll\<close> is false, and for \<open>batchSize * seqLen\<close> rows, which can be
  fewer, when it is true; the property of the expansion below is therefore stated for
  calls with \<open>logitsAll\<close> false only.
\<close>

definition expand_result :: "frame \<Rightarrow> int \<Rightarrow> 'a mem \<Rightarrow> 'a mem option" where
  "expand_result f splitSize m =
     (if step f = 0 \<and> beamSize f > 1 then
        for_each (rev [0..userSideBS f - 1])
          (\<lambda>b. for_each [b * beamSize f..(b + 1) * beamSize f - 1]
                  (\<lambda>idx m. if idx = b then Some m
                            else memcpy m (outBuf f + idx * splitSize) (outBuf f + b * splitSize) splitSize))
          m
      else Some m)"

text \<open>
  \<^verbatim>\<open>forward\<close>.  The result is the returned tuple (\<open>None\<close> is \<^verbatim>\<open>nullptr\<close>, \<open>Some off\<close> the
  pointer \<^verbatim>\<open>actBuffers->Data() + off\<close>) and the run: the object as the call leaves it,
  and the calls made.
\<close>

definition forward ::
  "('a, 'c) Env \<Rightarrow> ('a, 'c) CommonDecoder \<Rightarrow> int list \<Rightarrow> int \<times> int \<times> int \<Rightarrow> int \<Rightarrow> bool
     \<Rightarrow> ((int option \<times> int \<times> int) \<times> ('a, 'c) run) option" where
  "forward E this ids0 dims step0 logitsAll0 =
     (case forward_layers E this ids0 dims step0 logitsAll0 of
        None \<Rightarrow> None
      | Some (f, r) \<Rightarrow>
          if pp_rank (fst r) < pp_size (fst r) - 1 then
            Some ((None, 0, 0),
                  invoke E (MPI_Send (ActBuf embBuf) (batchSize f * inputSeqLen f * hiddenSize (ctx f))
                              (pp_rank (fst r) + 1) (100 * pp_rank (fst r)) MPI_COMM_WORLD) r)
          else
            (case forward_logits E this ids0 dims step0 logitsAll0 of
               None \<Rightarrow> None
             | Some (f, r) \<Rightarrow>
                 (case expand_result f (getSplitSize (predictor (fst r))) (actBuffers (fst r)) of
                    None \<Rightarrow> None
                  | Some m \<Rightarrow>
                      Some ((Some (outBuf f), getSplitOffset (predictor (fst r)),
                             getSplitSize (predictor (fst r))),
                            apfst (\<lambda>this. this\<lparr>actBuffers := m\<rparr>) r))))"

text \<open>
  A session: \<^verbatim>\<open>forward\<close> calls on one object, each given by its arguments
  \<open>(ids, dims, step, logitsAll)\<close>.  The result is the object after the last call.
\<close>

primrec session ::
  "('a, 'c) Env \<Rightarrow> ('a, 'c) CommonDecoder \<Rightarrow> (int list \<times> (int \<times> int \<times> int) \<times> int \<times> bool) list
     \<Rightarrow> ('a, 'c) CommonDecoder option" where
  "session E this [] = Some this"
| "session E this (c # cs) =
     (case c of (ids0, dims, step0, logitsAll0) \<Rightarrow>
        (case forward E this ids0 dims step0 logitsAll0 of
           None \<Rightarrow> None
         | Some (result, this', trace) \<Rightarrow> session E this' cs))"

subsection \<open>\<^verbatim>\<open>reorderCache\<close>\<close>

text \<open>
  Line 523: the object hands its own \<open>initSeqLen\<close> and \<open>accSeqLen\<close> to the KV cache
  manager.
\<close>

definition reorderCache ::
  "('a, 'v KVCacheManager) CommonDecoder \<Rightarrow> int list \<Rightarrow> int
     \<Rightarrow> ('a, 'v KVCacheManager) CommonDecoder option" where
  "reorderCache this idx size' =
     (case KVCacheManager_reorderCache (kvCacheMgr this) idx size' (initSeqLen this) (accSeqLen this) of
        None \<Rightarrow> None
      | Some mgr \<Rightarrow> Some (this\<lparr>kvCacheMgr := mgr\<rparr>))"

subsection \<open>Notions used to state the properties\<close>

text \<open>
  The members that no call to a collaborator and no write to a buffer changes.
\<close>

definition members ::
  "('a, 'c) CommonDecoder \<Rightarrow>
     Messenger \<times> int \<times> int \<times> int \<times> int \<times> DecoderContext option \<times> int \<times> bool \<times> int list
       \<times> DistLinear \<times> bool" where
  "members this =
     (messenger this, pp_size this, pp_rank this, tp_size this, tp_rank this,
      decoder_context this, prefixSeqLen this, prefixSharing this, decoders this,
      predictor this, ATTN_MLP_PARALLEL this)"

text \<open>
  The two portions of an input of \<open>U\<close> sequences of \<open>S\<close> tokens each, for a prefix of
  \<open>P\<close> tokens: the first \<open>P\<close> tokens of every sequence, and the remaining \<open>S - P\<close>
  tokens of every sequence.
\<close>

definition prefix_portion :: "int list \<Rightarrow> int \<Rightarrow> int \<Rightarrow> int \<Rightarrow> int list" where
  "prefix_portion xs U S P = concat (map (\<lambda>bs. take (nat P) (drop (nat (S * bs)) xs)) [0..U - 1])"

definition new_token_portion :: "int list \<Rightarrow> int \<Rightarrow> int \<Rightarrow> int \<Rightarrow> int list" where
  "new_token_portion xs U S P =
     concat (map (\<lambda>bs. take (nat (S - P)) (drop (nat (S * bs + P)) xs)) [0..U - 1])"

text \<open>The token ids a call is handed, if any.\<close>

fun call_ids :: "call \<Rightarrow> int list option" where
  "call_ids (getPositionIds xs b n s) = Some xs"
| "call_ids (embeddingForward xs p b n) = Some xs"
| "call_ids (prepareAttnMask xs s) = Some xs"
| "call_ids c = None"

text \<open>
  Of the arguments of a \<^verbatim>\<open>forward\<close> call: \<^verbatim>\<open>dims[2]\<close>, the sequence length (the local
  \<^verbatim>\<open>seqLen\<close> that line 258 reads from it), and the step.
\<close>

definition call_dims2 :: "int list \<times> (int \<times> int \<times> int) \<times> int \<times> bool \<Rightarrow> int" where
  "call_dims2 c = (case c of (ids0, (dims0, dims1, dims2), step0, logitsAll0) \<Rightarrow> dims2)"

definition call_seqLen :: "int list \<times> (int \<times> int \<times> int) \<times> int \<times> bool \<Rightarrow> int" where
  "call_seqLen c = to_int (call_dims2 c)"

definition call_step :: "int list \<times> (int \<times> int \<times> int) \<times> int \<times> bool \<Rightarrow> int" where
  "call_step c = (case c of (ids0, dims, step0, logitsAll0) \<Rightarrow> step0)"

subsection \<open>Concrete instances\<close>

text \<open>
  A small environment whose callees leave the buffers as they are, a context, and an
  object on pipeline stage \<open>rank\<close> of \<open>stages\<close> whose activation buffer holds at each
  offset the offset itself.  They are used to run the definitions on concrete inputs.
\<close>

definition example_Env :: "int \<Rightarrow> (int, unit) Env" where
  "example_Env stages =
     \<lparr>getPipeline = stages,
      new_DecoderContext = (\<lambda>args idx n.
         \<lparr>hiddenSize = arg_hiddenSize args, attHeadNum = arg_attHeadNum args,
          kvHeadNum = arg_kvHeadNum args, intermediateSize = arg_imSize args, splitIdx = idx\<rparr>),
      new_DistLinear = (\<lambda>inputSize outputSize rank workers.
         \<lparr>getSplitOffset = 0, getSplitSize = outputSize\<rparr>),
      new_KVCacheManager = (\<lambda>layers. ()),
      new_Matrix = (\<lambda>a. a),
      kernel = (\<lambda>c w. w)\<rparr>"

definition example_context :: DecoderContext where
  "example_context =
     \<lparr>hiddenSize = 4, attHeadNum = 2, kvHeadNum = 2, intermediateSize = 8, splitIdx = 0\<rparr>"

definition example_args :: "int \<Rightarrow> ContextArgs" where
  "example_args hidden =
     \<lparr>arg_layers = 2, arg_hiddenSize = hidden, arg_attHeadNum = 2, arg_kvHeadNum = 2,
      arg_imSize = 8, arg_vocabSize = 3, arg_embeddingSize = hidden, arg_maxPositions = 64,
      arg_maxPosEmbed = 64, arg_maxSeqLength = - 1\<rparr>"

definition example_config :: config where
  "example_config =
     \<lparr>head_num = 2, kv_head_num = 2, size_per_head = 2, inter_size = 8, num_layer = 32,
      vocab_size = 3, max_pos_seq_len = 64, model_max_length = 64, seq_length = - 1\<rparr>"

definition example_decoder :: "int \<Rightarrow> int \<Rightarrow> bool \<Rightarrow> (int, unit) CommonDecoder" where
  "example_decoder stages rank sharing =
     \<lparr>messenger = \<lparr>getSize = 1, getRank = 0, getColor = rank\<rparr>,
      pp_size = stages, pp_rank = rank, tp_size = 1, tp_rank = 0,
      decoder_context = Some example_context, initSeqLen = 7, accSeqLen = 9,
      prefixSeqLen = 2, prefixSharing = sharing, kvCacheMgr = (), actBuffers = (\<lambda>a. a),
      decoders = [0, 1], predictor = \<lparr>getSplitOffset = 0, getSplitSize = 3\<rparr>,
      ATTN_MLP_PARALLEL = False\<rparr>"

text \<open>
  An object between two decoding steps, with one layer and \<open>initSeqLen = 2\<close>,
  \<open>accSeqLen = 4\<close>, whose key tensor holds at every time step and row the pair of both,
  and whose value tensor holds the pair with the row shifted by 10.
\<close>

definition example_cache_decoder :: "(int, (int \<times> int) KVCacheManager) CommonDecoder" where
  "example_cache_decoder =
     \<lparr>messenger = \<lparr>getSize = 1, getRank = 0, getColor = 0\<rparr>,
      pp_size = 1, pp_rank = 0, tp_size = 1, tp_rank = 0,
      decoder_context = Some example_context, initSeqLen = 2, accSeqLen = 4,
      prefixSeqLen = 0, prefixSharing = False,
      kvCacheMgr = [(\<lambda>s row. (s, row), \<lambda>s row. (s, 10 + row))],
      actBuffers = (\<lambda>a. a), decoders = [0],
      predictor = \<lparr>getSplitOffset = 0, getSplitSize = 3\<rparr>, ATTN_MLP_PARALLEL = False\<rparr>"

section \<open>Properties\<close>

subsection \<open>Arithmetic of the source on non-negative values\<close>

lemma to_int_in_range: "- 2147483648 \<le> x \<Longrightarrow> x < 2147483648 \<Longrightarrow> to_int x = x"
  by (simp add: to_int_def)

lemma to_int_range: "- 2147483648 \<le> to_int x \<and> to_int x < 2147483648"
proof -
  have "0 \<le> (x + 2147483648) mod 4294967296" "(x + 2147483648) mod 4294967296 < 4294967296"
    by simp_all
  then show ?thesis unfolding to_int_def by linarith
qed

lemma to_int_idem: "to_int (to_int x) = to_int x"
  using to_int_range [of x] by (intro to_int_in_range) simp_all

lemma c_div_nonneg: "0 \<le> a \<Longrightarrow> 0 < b \<Longrightarrow> c_div a b = Some (a div b)"
  by (cases "a = 0") (simp_all add: c_div_def)

lemma c_mod_nonneg: "0 \<le> a \<Longrightarrow> 0 < b \<Longrightarrow> c_mod a b = Some (a mod b)"
  by (simp add: c_mod_def c_div_nonneg minus_mult_div_eq_mod)

lemma div_eq_iff_range:
  fixes t :: int
  assumes "0 < t"
  shows "r div t = c \<longleftrightarrow> c * t \<le> r \<and> r < (c + 1) * t"
proof
  assume "r div t = c"
  moreover have "r = (r div t) * t + r mod t" by simp
  moreover have "0 \<le> r mod t" "r mod t < t" using assms by simp_all
  ultimately show "c * t \<le> r \<and> r < (c + 1) * t" by (simp add: algebra_simps)
next
  assume h: "c * t \<le> r \<and> r < (c + 1) * t"
  have "r = t * c + (r - c * t)" by simp
  moreover have "0 \<le> r - c * t" "r - c * t < t" using h by (simp_all add: algebra_simps)
  ultimately show "r div t = c" by (rule int_div_pos_eq)
qed

subsection \<open>The topology \<^verbatim>\<open>init\<close> computes\<close>

lemma tp_num_pos:
  fixes P :: int
  assumes "0 < P" "P dvd W" "0 < W"
  shows "0 < W div P"
  using assms by (metis dvd_div_eq_0_iff less_le not_less pos_imp_zdiv_nonneg_iff)

lemma world_color_div:
  assumes "0 < P" "P dvd W" "0 < W" "0 \<le> r"
  shows "world_color W r P = Some (r div (W div P))"
  using assms tp_num_pos [OF assms(1-3)] by (simp add: world_color_def c_div_nonneg)

lemma filter_div_upto:
  assumes "0 < t" "0 \<le> c" "(c + 1) * t \<le> W"
  shows "filter (\<lambda>r. r div t = c) [0..W - 1] = [c * t..c * t + t - 1]"
proof (rule sorted_distinct_set_unique)
  show "sorted (filter (\<lambda>r. r div t = c) [0..W - 1])" by (simp add: sorted_wrt_filter)
  show "distinct (filter (\<lambda>r. r div t = c) [0..W - 1])" by simp
  show "sorted [c * t..c * t + t - 1]" by simp
  show "distinct [c * t..c * t + t - 1]" by simp
  show "set (filter (\<lambda>r. r div t = c) [0..W - 1]) = set [c * t..c * t + t - 1]"
  proof (rule set_eqI)
    fix r
    have ct: "0 \<le> c * t" using assms by simp
    have "r div t = c \<longleftrightarrow> c * t \<le> r \<and> r < c * t + t"
      using div_eq_iff_range [OF assms(1), of r c] by (simp add: algebra_simps)
    moreover have "c * t + t \<le> W" using assms(3) by (simp add: algebra_simps)
    ultimately show "r \<in> set (filter (\<lambda>r. r div t = c) [0..W - 1]) \<longleftrightarrow> r \<in> set [c * t..c * t + t - 1]"
      using ct by auto
  qed
qed

lemma takeWhile_upto:
  fixes a :: int
  assumes "a \<le> R" "R \<le> b"
  shows "takeWhile (\<lambda>r. r \<noteq> R) [a..b] = [a..R - 1]"
proof -
  have "[a..b] = [a..R - 1] @ R # [R + 1..b]" using assms
    using upto_split1 [of a R b] upto_rec1 [of R b] by simp
  moreover have "takeWhile (\<lambda>r. r \<noteq> R) ([a..R - 1] @ R # [R + 1..b])
      = [a..R - 1] @ takeWhile (\<lambda>r. r \<noteq> R) (R # [R + 1..b])"
    by (rule takeWhile_append2) simp
  ultimately show ?thesis by simp
qed

lemma init_divisible:
  assumes "0 < P" "P dvd W" "0 \<le> R" "R < W"
  shows "init W R P = Some (W div P, R mod (W div P), R div (W div P))"
proof -
  define t where "t = W div P"
  define c where "c = R div t"
  have W: "0 < W" using assms by simp
  have t: "0 < t" unfolding t_def using tp_num_pos [OF assms(1,2) W] .
  have Wt: "W = P * t" using assms(2) by (simp add: t_def)
  have c0: "0 \<le> c" using assms(3) t by (simp add: c_def pos_imp_zdiv_nonneg_iff)
  have cR: "c * t \<le> R \<and> R < (c + 1) * t"
    using div_eq_iff_range [OF t, of R c] by (simp add: c_def)
  have "c < P"
  proof (rule ccontr)
    assume "\<not> c < P"
    then have "P * t \<le> c * t" using t by simp
    then show False using cR assms(4) Wt by simp
  qed
  then have "(c + 1) * t \<le> P * t" using t by simp
  then have top: "(c + 1) * t \<le> W" using Wt by simp
  have col: "world_color W R P = Some c"
    using world_color_div [OF assms(1,2) W assms(3)] by (simp add: c_def t_def)
  have "MPI_Comm_split W (\<lambda>r. world_color W r P) R
      = filter (\<lambda>r. world_color W r P = Some c) [0..W - 1]"
    by (simp add: MPI_Comm_split_def col)
  also have "\<dots> = filter (\<lambda>r. r div t = c) [0..W - 1]"
    by (rule filter_cong) (simp_all add: world_color_div [OF assms(1,2) W] t_def)
  also have "\<dots> = [c * t..c * t + t - 1]" by (rule filter_div_upto [OF t c0 top])
  finally have comm: "MPI_Comm_split W (\<lambda>r. world_color W r P) R = [c * t..c * t + t - 1]" .
  have sz: "MPI_Comm_size [c * t..c * t + t - 1] = t" using t by (simp add: MPI_Comm_size_def)
  have "takeWhile (\<lambda>r. r \<noteq> R) [c * t..c * t + t - 1] = [c * t..R - 1]"
    using cR by (intro takeWhile_upto) (simp_all add: algebra_simps)
  then have "MPI_Comm_rank [c * t..c * t + t - 1] R = R - c * t"
    using cR by (simp add: MPI_Comm_rank_def)
  moreover have "R mod t = R - c * t"
    by (simp add: c_def minus_div_mult_eq_mod [symmetric] algebra_simps)
  ultimately have rk: "MPI_Comm_rank [c * t..c * t + t - 1] R = R mod t" by simp
  show ?thesis using col comm sz rk by (simp add: init_def t_def [symmetric] c_def [symmetric])
qed

lemma split_example:
  "map (\<lambda>r. MPI_Comm_split 8 (\<lambda>q. world_color 8 q 2) r) [0, 1, 2, 3, 4, 5, 6, 7]
     = [[0, 1, 2, 3], [0, 1, 2, 3], [0, 1, 2, 3], [0, 1, 2, 3],
        [4, 5, 6, 7], [4, 5, 6, 7], [4, 5, 6, 7], [4, 5, 6, 7]]"
  by (simp add: MPI_Comm_split_def world_color_def c_div_def upto_rec1)

text \<open>
  Claim C3.  Whenever \<open>init\<close> returns, the color is the truncated quotient
  \<open>R / (W / P)\<close> and the row communicator holds exactly the world ranks of that color.
  When the stage count \<open>P\<close> divides the world size \<open>W\<close>, rank \<open>R\<close> gets the group size
  \<open>W div P\<close>, the group rank \<open>R mod (W div P)\<close> and the color \<open>R div (W div P)\<close>.  For
  \<open>W = 8\<close> and \<open>P = 2\<close> every rank gets size 4, ranks 0--3 get color 0 and form the group
  \<open>[0, 1, 2, 3]\<close>, ranks 4--7 get color 1 and form the group \<open>[4, 5, 6, 7]\<close>.
\<close>

theorem init_pipeline_groups:
  "(\<forall>row_size row_rank color. init W R P = Some (row_size, row_rank, color) \<longrightarrow>
      (\<exists>tp_num. c_div W P = Some tp_num \<and> c_div R tp_num = Some color)
      \<and> set (MPI_Comm_split W (\<lambda>r. world_color W r P) R)
          = {r. 0 \<le> r \<and> r < W \<and> world_color W r P = Some color}
      \<and> row_size = int (length (MPI_Comm_split W (\<lambda>r. world_color W r P) R)))
   \<and> (0 < P \<and> P dvd W \<and> 0 \<le> R \<and> R < W \<longrightarrow>
        init W R P = Some (W div P, R mod (W div P), R div (W div P)))
   \<and> map (\<lambda>r. init 8 r 2) [0, 1, 2, 3, 4, 5, 6, 7]
        = [Some (4, 0, 0), Some (4, 1, 0), Some (4, 2, 0), Some (4, 3, 0),
           Some (4, 0, 1), Some (4, 1, 1), Some (4, 2, 1), Some (4, 3, 1)]
   \<and> map (\<lambda>r. MPI_Comm_split 8 (\<lambda>q. world_color 8 q 2) r) [0, 1, 2, 3, 4, 5, 6, 7]
        = [[0, 1, 2, 3], [0, 1, 2, 3], [0, 1, 2, 3], [0, 1, 2, 3],
           [4, 5, 6, 7], [4, 5, 6, 7], [4, 5, 6, 7], [4, 5, 6, 7]]"
proof (intro conjI allI impI)
  fix row_size row_rank color
  assume h: "init W R P = Some (row_size, row_rank, color)"
  then have col: "world_color W R P = Some color"
    by (simp add: init_def Let_def split: option.splits)
  then show "\<exists>tp_num. c_div W P = Some tp_num \<and> c_div R tp_num = Some color"
    by (simp add: world_color_def split: option.splits)
  show "set (MPI_Comm_split W (\<lambda>r. world_color W r P) R)
          = {r. 0 \<le> r \<and> r < W \<and> world_color W r P = Some color}"
    using col by (auto simp: MPI_Comm_split_def)
  show "row_size = int (length (MPI_Comm_split W (\<lambda>r. world_color W r P) R))"
    using h by (simp add: init_def Let_def MPI_Comm_size_def split: option.splits)
next
  assume "0 < P \<and> P dvd W \<and> 0 \<le> R \<and> R < W"
  then show "init W R P = Some (W div P, R mod (W div P), R div (W div P))"
    by (simp add: init_divisible)
next
  show "map (\<lambda>r. init 8 r 2) [0, 1, 2, 3, 4, 5, 6, 7]
        = [Some (4, 0, 0), Some (4, 1, 0), Some (4, 2, 0), Some (4, 3, 0),
           Some (4, 0, 1), Some (4, 1, 1), Some (4, 2, 1), Some (4, 3, 1)]"
    by (simp add: init_divisible)
next
  show "map (\<lambda>r. MPI_Comm_split 8 (\<lambda>q. world_color 8 q 2) r) [0, 1, 2, 3, 4, 5, 6, 7]
        = [[0, 1, 2, 3], [0, 1, 2, 3], [0, 1, 2, 3], [0, 1, 2, 3],
           [4, 5, 6, 7], [4, 5, 6, 7], [4, 5, 6, 7], [4, 5, 6, 7]]"
    by (rule split_example)
qed

theorem init_pipeline_groups_witness:
  "init 12 7 3 = Some (4, 3, 1) \<and> c_div 12 3 = Some 4 \<and> c_div 7 4 = Some 1
     \<and> set (MPI_Comm_split 12 (\<lambda>r. world_color 12 r 3) 7)
         = {r. 0 \<le> r \<and> r < 12 \<and> world_color 12 r 3 = Some 1}"
  using init_pipeline_groups [of 12 7 3] by (simp add: c_div_def)

subsection \<open>The layers the constructor assigns\<close>

lemma getDecoderContext_fresh:
  assumes "decoder_context this = None"
  shows "getDecoderContext E this args =
           Inr (new_DecoderContext E args (getRank (messenger this)) (getSize (messenger this)),
                this\<lparr>pp_size := getPipeline E, pp_rank := getColor (messenger this),
                      tp_size := getSize (messenger this), tp_rank := getRank (messenger this),
                      decoder_context := Some (new_DecoderContext E args (getRank (messenger this))
                                                 (getSize (messenger this)))\<rparr>)"
  using assms by (simp add: getDecoderContext_def Let_def)

lemma CommonDecoder_decoders:
  assumes "0 \<le> num_layer cfg" "0 < getPipeline E"
  shows "\<exists>this. CommonDecoder E msgr par cfg = Inr (\<not> getPipeline E dvd num_layer cfg, this)
           \<and> pp_size this = getPipeline E \<and> pp_rank this = getColor msgr
           \<and> decoders this = [getColor msgr * (num_layer cfg div getPipeline E)..
                               (getColor msgr + 1) * (num_layer cfg div getPipeline E) - 1]"
  using assms
  by (simp add: CommonDecoder_def Let_def getDecoderContext_fresh c_div_nonneg c_mod_nonneg
      algebra_simps dvd_eq_mod_eq_0)

lemma concat_upto_blocks:
  fixes q :: int
  assumes "0 \<le> q"
  shows "concat (map (\<lambda>r. [r * q..(r + 1) * q - 1]) [0..int n - 1]) = [0..int n * q - 1]"
proof (induction n)
  case 0
  show ?case by simp
next
  case (Suc n)
  have "[0..int (Suc n) - 1] = [0..int n - 1] @ [int n]"
    using upto_rec2 [of 0 "int n"] by simp
  moreover have "[0..int (Suc n) * q - 1] = [0..int n * q - 1] @ [int n * q..(int n + 1) * q - 1]"
  proof (cases "q = 0")
    case True
    then show ?thesis by simp
  next
    case False
    then have "1 \<le> q" using assms by simp
    then show ?thesis
      using upto_split1 [of 0 "int n * q" "int (Suc n) * q - 1"] assms
      by (simp add: algebra_simps)
  qed
  ultimately show ?case using Suc.IH by simp
qed

text \<open>
  Claim C4.  With a non-negative layer count \<open>num_layer\<close> and a positive stage count, the
  constructor returns an object whose decoders are the layers
  \<open>pp_rank * (num_layer div pp_size)\<close> up to, and excluding,
  \<open>(pp_rank + 1) * (num_layer div pp_size)\<close>, in order; the warning is printed exactly
  when the stage count does not divide the layer count.  When it divides it, every stage
  gets \<open>num_layer div pp_size\<close> layers, and the ranges of the stages
  \<open>0, \<dots>, pp_size - 1\<close>, one after the other, are the layers \<open>0, \<dots>, num_layer - 1\<close>:
  each layer once, none missing.  \<open>stage r\<close> is the messenger of a process of color \<open>r\<close>.
\<close>

theorem CommonDecoder_layer_range:
  "(0 \<le> num_layer cfg \<and> 0 < getPipeline E \<longrightarrow>
      (\<exists>this. CommonDecoder E msgr par cfg = Inr (\<not> getPipeline E dvd num_layer cfg, this)
         \<and> pp_size this = getPipeline E \<and> pp_rank this = getColor msgr
         \<and> decoders this = [pp_rank this * (num_layer cfg div pp_size this)..
                             (pp_rank this + 1) * (num_layer cfg div pp_size this) - 1]))
   \<and> (0 \<le> num_layer cfg \<and> 0 < getPipeline E \<and> getPipeline E dvd num_layer cfg
        \<and> (\<forall>r. getColor (stage r) = r) \<longrightarrow>
      (\<forall>r. \<exists>this. CommonDecoder E (stage r) par cfg = Inr (False, this)
               \<and> int (length (decoders this)) = num_layer cfg div getPipeline E)
      \<and> concat (map (\<lambda>r. case CommonDecoder E (stage r) par cfg of
                                Inl e \<Rightarrow> [] | Inr (w, this) \<Rightarrow> decoders this)
                     [0..getPipeline E - 1]) = [0..num_layer cfg - 1])"
proof (intro conjI impI)
  assume "0 \<le> num_layer cfg \<and> 0 < getPipeline E"
  then show "\<exists>this. CommonDecoder E msgr par cfg = Inr (\<not> getPipeline E dvd num_layer cfg, this)
         \<and> pp_size this = getPipeline E \<and> pp_rank this = getColor msgr
         \<and> decoders this = [pp_rank this * (num_layer cfg div pp_size this)..
                             (pp_rank this + 1) * (num_layer cfg div pp_size this) - 1]"
    using CommonDecoder_decoders [of cfg E msgr par] by auto
next
  assume h: "0 \<le> num_layer cfg \<and> 0 < getPipeline E \<and> getPipeline E dvd num_layer cfg
        \<and> (\<forall>r. getColor (stage r) = r)"
  define q where "q = num_layer cfg div getPipeline E"
  have q: "0 \<le> q" using h by (simp add: q_def pos_imp_zdiv_nonneg_iff)
  have dec: "\<exists>this. CommonDecoder E (stage r) par cfg = Inr (False, this)
               \<and> decoders this = [r * q..(r + 1) * q - 1]" for r
    using CommonDecoder_decoders [of cfg E "stage r" par] h by (auto simp: q_def)
  show "\<forall>r. \<exists>this. CommonDecoder E (stage r) par cfg = Inr (False, this)
               \<and> int (length (decoders this)) = num_layer cfg div getPipeline E"
  proof
    fix r
    obtain this where "CommonDecoder E (stage r) par cfg = Inr (False, this)"
      "decoders this = [r * q..(r + 1) * q - 1]" using dec by blast
    moreover have "int (length [r * q..(r + 1) * q - 1]) = q" using q by (simp add: algebra_simps)
    ultimately show "\<exists>this. CommonDecoder E (stage r) par cfg = Inr (False, this)
               \<and> int (length (decoders this)) = num_layer cfg div getPipeline E"
      by (auto simp: q_def)
  qed
  have "(\<lambda>r. case CommonDecoder E (stage r) par cfg of
                Inl e \<Rightarrow> [] | Inr (w, this) \<Rightarrow> decoders this) = (\<lambda>r. [r * q..(r + 1) * q - 1])"
  proof
    fix r
    obtain this where "CommonDecoder E (stage r) par cfg = Inr (False, this)"
      "decoders this = [r * q..(r + 1) * q - 1]" using dec by blast
    then show "(case CommonDecoder E (stage r) par cfg of
                Inl e \<Rightarrow> [] | Inr (w, this) \<Rightarrow> decoders this) = [r * q..(r + 1) * q - 1]"
      by simp
  qed
  moreover have "concat (map (\<lambda>r. [r * q..(r + 1) * q - 1]) [0..int (nat (getPipeline E)) - 1])
      = [0..int (nat (getPipeline E)) * q - 1]"
    by (rule concat_upto_blocks [OF q])
  moreover have "int (nat (getPipeline E)) * q = num_layer cfg" using h by (simp add: q_def)
  ultimately show "concat (map (\<lambda>r. case CommonDecoder E (stage r) par cfg of
                                Inl e \<Rightarrow> [] | Inr (w, this) \<Rightarrow> decoders this)
                     [0..getPipeline E - 1]) = [0..num_layer cfg - 1]"
    using h by simp
qed

theorem CommonDecoder_layer_range_witness:
  "(\<exists>this. CommonDecoder (example_Env 4) \<lparr>getSize = 1, getRank = 0, getColor = 2\<rparr> False example_config
             = Inr (False, this)
          \<and> pp_size this = 4 \<and> pp_rank this = 2
          \<and> decoders this = [16, 17, 18, 19, 20, 21, 22, 23])
   \<and> (\<forall>r. \<exists>this. CommonDecoder (example_Env 4) \<lparr>getSize = 1, getRank = 0, getColor = r\<rparr> False
                     example_config = Inr (False, this)
               \<and> int (length (decoders this)) = 8)
   \<and> concat (map (\<lambda>r. case CommonDecoder (example_Env 4) \<lparr>getSize = 1, getRank = 0, getColor = r\<rparr>
                               False example_config of
                         Inl e \<Rightarrow> [] | Inr (w, this) \<Rightarrow> decoders this) [0..3]) = [0..31]"
proof -
  have n: "num_layer example_config = 32" by (simp add: example_config_def)
  have p: "getPipeline (example_Env 4) = 4" by (simp add: example_Env_def)
  have "[(2::int) * (32 div 4)..(2 + 1) * (32 div 4) - 1] = [16, 17, 18, 19, 20, 21, 22, 23]"
    by (simp add: upto_rec1)
  then show ?thesis
    using CommonDecoder_layer_range [of example_config "example_Env 4"
        "\<lparr>getSize = 1, getRank = 0, getColor = 2\<rparr>" False
        "\<lambda>r. \<lparr>getSize = 1, getRank = 0, getColor = r\<rparr>"]
    unfolding n p by auto
qed

subsection \<open>An existing context\<close>

text \<open>
  Claim C9.  When the object already has a context, \<open>getDecoderContext\<close> returns that
  very context and leaves it in place if the five compared values agree with it
  (hidden size, head counts, intermediate size, split index), and otherwise ends the
  process with \<^verbatim>\<open>exit(-1)\<close>.  The result does not depend on the constructor of
  \<^verbatim>\<open>DecoderContext\<close>: no second context is built.
\<close>

theorem getDecoderContext_existing:
  assumes "decoder_context this = Some context"
  shows "(hiddenSize context = arg_hiddenSize args \<and> attHeadNum context = arg_attHeadNum args
            \<and> kvHeadNum context = arg_kvHeadNum args \<and> intermediateSize context = arg_imSize args
            \<and> splitIdx context = getRank (messenger this)
          \<longrightarrow> (\<exists>this'. getDecoderContext E this args = Inr (context, this')
                  \<and> decoder_context this' = Some context))
       \<and> (\<not> (hiddenSize context = arg_hiddenSize args \<and> attHeadNum context = arg_attHeadNum args
            \<and> kvHeadNum context = arg_kvHeadNum args \<and> intermediateSize context = arg_imSize args
            \<and> splitIdx context = getRank (messenger this))
          \<longrightarrow> getDecoderContext E this args = Inl (Exit (- 1)))
       \<and> (\<forall>mk. getDecoderContext (E\<lparr>new_DecoderContext := mk\<rparr>) this args
                 = getDecoderContext E this args)"
  using assms by (simp add: getDecoderContext_def Let_def)

theorem getDecoderContext_existing_witness:
  "decoder_context (example_decoder 1 0 False) = Some example_context
   \<and> (\<exists>this'. getDecoderContext (example_Env 1) (example_decoder 1 0 False) (example_args 4)
                = Inr (example_context, this')
             \<and> decoder_context this' = Some example_context)
   \<and> getDecoderContext (example_Env 1) (example_decoder 1 0 False) (example_args 8)
        = Inl (Exit (- 1))"
proof -
  have h: "decoder_context (example_decoder 1 0 False) = Some example_context"
    by (simp add: example_decoder_def)
  show ?thesis
    using h getDecoderContext_existing [OF h, of "example_args 4" "example_Env 1"]
      getDecoderContext_existing [OF h, of "example_args 8" "example_Env 1"]
    by (simp add: example_args_def example_context_def example_decoder_def)
qed

subsection \<open>Loops of \<^verbatim>\<open>memcpy\<close>\<close>

lemma for_each_append:
  "for_each (xs @ ys) body s = (case for_each xs body s of None \<Rightarrow> None | Some s' \<Rightarrow> for_each ys body s')"
  by (induction xs arbitrary: s) (auto split: option.splits)

lemma upto_snoc: "[0..int k] = [0..int k - 1] @ [int k]"
  using upto_rec2 [of 0 "int k"] by simp

lemma memcpy_Some:
  assumes "0 \<le> n" "n \<le> \<bar>dst - src\<bar>"
  shows "memcpy m dst src n = Some (\<lambda>a. if dst \<le> a \<and> a < dst + n then m (src + (a - dst)) else m a)"
  using assms by (simp add: memcpy_def)

lemma last_token_copy:
  fixes H S B :: int
  assumes "0 \<le> H" "1 < S" "int k \<le> B"
  shows "\<exists>m'. for_each [0..int k - 1]
                  (\<lambda>b m. memcpy m (B * S * H + b * H) (((b + 1) * S - 1) * H) H) m = Some m'
     \<and> (\<forall>b j. 0 \<le> b \<and> b < int k \<and> 0 \<le> j \<and> j < H \<longrightarrow>
            m' (B * S * H + b * H + j) = m (((b + 1) * S - 1) * H + j))
     \<and> (\<forall>a. \<not> (B * S * H \<le> a \<and> a < B * S * H + int k * H) \<longrightarrow> m' a = m a)"
  using assms(3)
proof (induction k)
  case 0
  show ?case by auto
next
  case (Suc k)
  define out where "out = B * S * H"
  define dst where "dst = out + int k * H"
  define src where "src = ((int k + 1) * S - 1) * H"
  have kB: "int k + 1 \<le> B" using Suc.prems by simp
  have SH: "0 \<le> S * H" using assms by simp
  have "(int k + 1) * (S * H) \<le> B * (S * H)" using kB SH by (rule mult_right_mono)
  then have top: "src + H \<le> out" by (simp add: src_def out_def algebra_simps)
  have kH: "0 \<le> int k * H" using assms(1) by simp
  have gap: "H \<le> \<bar>dst - src\<bar>" using top kH by (simp add: dst_def)
  from Suc.IH kB obtain m1 where
    run: "for_each [0..int k - 1]
            (\<lambda>b m. memcpy m (B * S * H + b * H) (((b + 1) * S - 1) * H) H) m = Some m1"
    and rows: "\<And>b j. 0 \<le> b \<Longrightarrow> b < int k \<Longrightarrow> 0 \<le> j \<Longrightarrow> j < H \<Longrightarrow>
            m1 (out + b * H + j) = m (((b + 1) * S - 1) * H + j)"
    and rest: "\<And>a. \<not> (out \<le> a \<and> a < out + int k * H) \<Longrightarrow> m1 a = m a"
    unfolding out_def by auto
  define m2 where "m2 = (\<lambda>a. if dst \<le> a \<and> a < dst + H then m1 (src + (a - dst)) else m1 a)"
  have step: "memcpy m1 dst src H = Some m2"
    unfolding m2_def by (rule memcpy_Some [OF assms(1) gap])
  have all: "for_each [0..int (Suc k) - 1]
            (\<lambda>b m. memcpy m (B * S * H + b * H) (((b + 1) * S - 1) * H) H) m = Some m2"
    using run step by (simp add: upto_snoc for_each_append dst_def src_def out_def)
  have new_rows: "m2 (out + b * H + j) = m (((b + 1) * S - 1) * H + j)"
    if b: "0 \<le> b" "b < int (Suc k)" and j: "0 \<le> j" "j < H" for b j
  proof (cases "b = int k")
    case True
    have "m2 (out + b * H + j) = m1 (src + j)" using j True by (simp add: m2_def dst_def)
    also have "\<dots> = m (src + j)" using top j by (intro rest) simp
    finally show ?thesis using True by (simp add: src_def)
  next
    case False
    then have bk: "b + 1 \<le> int k" using b by simp
    have "(b + 1) * H \<le> int k * H" using bk assms(1) by (rule mult_right_mono)
    then have "out + b * H + j < dst" using j by (simp add: dst_def algebra_simps)
    then have "m2 (out + b * H + j) = m1 (out + b * H + j)" by (simp add: m2_def)
    also have "\<dots> = m (((b + 1) * S - 1) * H + j)" using b bk j by (intro rows) simp_all
    finally show ?thesis .
  qed
  have new_rest: "m2 a = m a" if a: "\<not> (out \<le> a \<and> a < out + int (Suc k) * H)" for a
  proof -
    have "\<not> (dst \<le> a \<and> a < dst + H)" using a kH by (simp add: dst_def algebra_simps)
    then have "m2 a = m1 a" by (auto simp: m2_def)
    also have "\<dots> = m a" using a assms(1) by (intro rest) (simp add: algebra_simps, linarith)
    finally show ?thesis .
  qed
  show ?case using all new_rows new_rest unfolding out_def by blast
qed

lemma upto_snoc_from: "[lo..lo + int k] = [lo..lo + int k - 1] @ [lo + int k]"
  using upto_rec2 [of lo "lo + int k"] by simp

lemma row_below:
  fixes sp :: int
  assumes "r + 1 \<le> t" "0 \<le> j" "j < sp"
  shows "r * sp + j < t * sp"
proof -
  have "0 \<le> sp" using assms by simp
  then have "(r + 1) * sp \<le> t * sp" using assms(1) by (intro mult_right_mono)
  then show ?thesis using assms by (simp add: algebra_simps)
qed

lemma row_above:
  fixes sp :: int
  assumes "t \<le> r" "0 \<le> j" "0 \<le> sp"
  shows "t * sp \<le> r * sp + j"
proof -
  have "t * sp \<le> r * sp" using assms by (intro mult_right_mono)
  then show ?thesis using assms by simp
qed

lemma beam_copy_inner:
  fixes sp fo lo b :: int
  assumes "0 \<le> sp"
  shows "\<exists>m'. for_each [lo..lo + int k - 1]
                  (\<lambda>idx m. if idx = b then Some m
                            else memcpy m (fo + idx * sp) (fo + b * sp) sp) m = Some m'
     \<and> (\<forall>r j. lo \<le> r \<and> r < lo + int k \<and> 0 \<le> j \<and> j < sp \<longrightarrow>
            m' (fo + r * sp + j) = m (fo + b * sp + j))
     \<and> (\<forall>a. \<not> (fo + lo * sp \<le> a \<and> a < fo + (lo + int k) * sp) \<longrightarrow> m' a = m a)"
proof (induction k)
  case 0
  show ?case by auto
next
  case (Suc k)
  define idx where "idx = lo + int k"
  let ?body = "\<lambda>idx m. if idx = b then Some m else memcpy m (fo + idx * sp) (fo + b * sp) sp"
  from Suc.IH obtain m1 where
    run: "for_each [lo..lo + int k - 1] ?body m = Some m1"
    and rows: "\<And>r j. lo \<le> r \<Longrightarrow> r < idx \<Longrightarrow> 0 \<le> j \<Longrightarrow> j < sp \<Longrightarrow>
            m1 (fo + r * sp + j) = m (fo + b * sp + j)"
    and rest: "\<And>a. \<not> (fo + lo * sp \<le> a \<and> a < fo + idx * sp) \<Longrightarrow> m1 a = m a"
    unfolding idx_def by auto
  have src_kept: "m1 (fo + b * sp + j) = m (fo + b * sp + j)" if j: "0 \<le> j" "j < sp" for j
  proof (cases "lo \<le> b \<and> b < idx")
    case True
    then show ?thesis using rows [of b j] j by simp
  next
    case False
    then consider "b + 1 \<le> lo" | "idx \<le> b" by linarith
    then have "\<not> (fo + lo * sp \<le> fo + b * sp + j \<and> fo + b * sp + j < fo + idx * sp)"
    proof cases
      case 1
      then show ?thesis using row_below [OF 1 j] by simp
    next
      case 2
      then show ?thesis using row_above [OF 2 j(1) assms] by simp
    qed
    then show ?thesis by (rule rest)
  qed
  have split: "for_each [lo..lo + int (Suc k) - 1] ?body m = ?body idx m1"
    using run by (simp add: upto_snoc_from for_each_append idx_def split: option.splits)
  have lo_idx: "lo * sp \<le> idx * sp" using assms by (intro mult_right_mono) (simp_all add: idx_def)
  show ?case
  proof (cases "idx = b")
    case True
    have "for_each [lo..lo + int (Suc k) - 1] ?body m = Some m1" using split True by simp
    moreover have "m1 (fo + r * sp + j) = m (fo + b * sp + j)"
      if "lo \<le> r" "r < lo + int (Suc k)" "0 \<le> j" "j < sp" for r j
    proof (cases "r = idx")
      case True
      then show ?thesis using src_kept that \<open>idx = b\<close> by simp
    next
      case False
      then show ?thesis using rows [of r j] that by (simp add: idx_def)
    qed
    moreover have "m1 a = m a" if "\<not> (fo + lo * sp \<le> a \<and> a < fo + (lo + int (Suc k)) * sp)" for a
    proof -
      have "idx * sp \<le> (lo + int (Suc k)) * sp" using assms
        by (intro mult_right_mono) (simp_all add: idx_def)
      then show ?thesis using that by (intro rest) linarith
    qed
    ultimately show ?thesis by blast
  next
    case False
    define m2 where "m2 = (\<lambda>a. if fo + idx * sp \<le> a \<and> a < fo + idx * sp + sp
                               then m1 (fo + b * sp + (a - (fo + idx * sp))) else m1 a)"
    have "1 \<le> \<bar>idx - b\<bar>" using False by simp
    then have "1 * sp \<le> \<bar>idx - b\<bar> * sp" using assms by (intro mult_right_mono)
    then have "sp \<le> \<bar>(idx - b) * sp\<bar>" using assms by (simp add: abs_mult)
    then have gap: "sp \<le> \<bar>(fo + idx * sp) - (fo + b * sp)\<bar>" by (simp add: algebra_simps)
    have "memcpy m1 (fo + idx * sp) (fo + b * sp) sp = Some m2"
      unfolding m2_def by (rule memcpy_Some [OF assms gap])
    then have all: "for_each [lo..lo + int (Suc k) - 1] ?body m = Some m2"
      using split False by simp
    have new_rows: "m2 (fo + r * sp + j) = m (fo + b * sp + j)"
      if r: "lo \<le> r" "r < lo + int (Suc k)" and j: "0 \<le> j" "j < sp" for r j
    proof (cases "r = idx")
      case True
      then have "m2 (fo + r * sp + j) = m1 (fo + b * sp + j)" using j by (simp add: m2_def)
      then show ?thesis using src_kept j by simp
    next
      case False
      then have "r + 1 \<le> idx" using r by (simp add: idx_def)
      then have "r * sp + j < idx * sp" using j by (rule row_below)
      then have "m2 (fo + r * sp + j) = m1 (fo + r * sp + j)" by (simp add: m2_def)
      then show ?thesis using rows [of r j] r j \<open>r + 1 \<le> idx\<close> by simp
    qed
    have new_rest: "m2 a = m a"
      if a: "\<not> (fo + lo * sp \<le> a \<and> a < fo + (lo + int (Suc k)) * sp)" for a
    proof -
      have e: "(lo + int (Suc k)) * sp = idx * sp + sp" by (simp add: idx_def algebra_simps)
      have "\<not> (fo + idx * sp \<le> a \<and> a < fo + idx * sp + sp)" using a lo_idx e by linarith
      then have "m2 a = m1 a" by (auto simp: m2_def)
      moreover have "\<not> (fo + lo * sp \<le> a \<and> a < fo + idx * sp)" using a e assms by linarith
      ultimately show ?thesis using rest by simp
    qed
    show ?thesis using all new_rows new_rest by blast
  qed
qed

lemma beam_copy_outer:
  fixes sp fo beam :: int
  assumes "0 \<le> sp" "1 < beam"
  shows "\<exists>m'. for_each (rev [0..int n - 1])
                  (\<lambda>b. for_each [b * beam..(b + 1) * beam - 1]
                          (\<lambda>idx m. if idx = b then Some m
                                    else memcpy m (fo + idx * sp) (fo + b * sp) sp)) m = Some m'
     \<and> (\<forall>r j. 0 \<le> r \<and> r < int n * beam \<and> 0 \<le> j \<and> j < sp \<longrightarrow>
            m' (fo + r * sp + j) = m (fo + (r div beam) * sp + j))
     \<and> (\<forall>a. \<not> (fo \<le> a \<and> a < fo + int n * beam * sp) \<longrightarrow> m' a = m a)"
proof (induction n arbitrary: m)
  case 0
  show ?case by auto
next
  case (Suc n)
  let ?inner = "\<lambda>b. for_each [b * beam..(b + 1) * beam - 1]
                          (\<lambda>idx m. if idx = b then Some m
                                    else memcpy m (fo + idx * sp) (fo + b * sp) sp)"
  define lo where "lo = int n * beam"
  have blk: "[int n * beam..(int n + 1) * beam - 1] = [lo..lo + int (nat beam) - 1]"
    using assms(2) by (simp add: lo_def algebra_simps)
  obtain m1 where
    inner: "?inner (int n) m = Some m1"
    and rows1: "\<And>r j. lo \<le> r \<Longrightarrow> r < lo + beam \<Longrightarrow> 0 \<le> j \<Longrightarrow> j < sp \<Longrightarrow>
            m1 (fo + r * sp + j) = m (fo + int n * sp + j)"
    and rest1: "\<And>a. \<not> (fo + lo * sp \<le> a \<and> a < fo + (lo + beam) * sp) \<Longrightarrow> m1 a = m a"
    using beam_copy_inner [OF assms(1), of lo "nat beam" "int n" fo m] assms(2)
    unfolding blk by auto
  from Suc.IH [of m1] obtain m2 where
    outer: "for_each (rev [0..int n - 1]) ?inner m1 = Some m2"
    and rows2: "\<And>r j. 0 \<le> r \<Longrightarrow> r < lo \<Longrightarrow> 0 \<le> j \<Longrightarrow> j < sp \<Longrightarrow>
            m2 (fo + r * sp + j) = m1 (fo + (r div beam) * sp + j)"
    and rest2: "\<And>a. \<not> (fo \<le> a \<and> a < fo + lo * sp) \<Longrightarrow> m2 a = m1 a"
    unfolding lo_def by (auto simp: algebra_simps)
  have all: "for_each (rev [0..int (Suc n) - 1]) ?inner m = Some m2"
    using inner outer by (simp add: upto_snoc)
  have beam0: "0 < beam" using assms(2) by simp
  have lo0: "0 \<le> lo" using beam0 by (simp add: lo_def)
  have lo_sp: "0 \<le> lo * sp" using lo0 assms(1) by simp
  have n_lo: "int n \<le> lo"
  proof -
    have "int n * 1 \<le> int n * beam" using beam0 by (intro mult_left_mono) simp_all
    then show ?thesis by (simp add: lo_def)
  qed
  have new_rows: "m2 (fo + r * sp + j) = m (fo + (r div beam) * sp + j)"
    if r: "0 \<le> r" "r < int (Suc n) * beam" and j: "0 \<le> j" "j < sp" for r j
  proof (cases "r < lo")
    case True
    define q where "q = r div beam"
    have q: "q * beam \<le> r \<and> r < (q + 1) * beam"
      using div_eq_iff_range [OF beam0, of r q] by (simp add: q_def)
    have q0: "0 \<le> q" using r(1) beam0 by (simp add: q_def pos_imp_zdiv_nonneg_iff)
    have "q < int n"
    proof (rule ccontr)
      assume "\<not> q < int n"
      then have "int n * beam \<le> q * beam" using beam0 by (intro mult_right_mono) simp_all
      then show False using q True by (simp add: lo_def)
    qed
    then have "q + 1 \<le> lo" using n_lo by simp
    then have "q * sp + j < lo * sp" using j by (rule row_below)
    then have "m1 (fo + q * sp + j) = m (fo + q * sp + j)" by (intro rest1) simp
    then show ?thesis using rows2 [OF r(1) True j] by (simp add: q_def)
  next
    case False
    then have lo_r: "lo \<le> r" by simp
    have hi: "r < lo + beam" using r(2) by (simp add: lo_def algebra_simps)
    have "r div beam = int n"
      using div_eq_iff_range [OF beam0, of r "int n"] lo_r hi by (simp add: lo_def algebra_simps)
    moreover have "lo * sp \<le> r * sp + j" using lo_r j(1) assms(1) by (rule row_above)
    then have "m2 (fo + r * sp + j) = m1 (fo + r * sp + j)" by (intro rest2) simp
    ultimately show ?thesis using rows1 [OF lo_r hi j] by simp
  qed
  have new_rest: "m2 a = m a" if a: "\<not> (fo \<le> a \<and> a < fo + int (Suc n) * beam * sp)" for a
  proof -
    have e: "int (Suc n) * beam * sp = lo * sp + beam * sp" by (simp add: lo_def algebra_simps)
    have bs: "0 \<le> beam * sp" using beam0 assms(1) by simp
    have "\<not> (fo \<le> a \<and> a < fo + lo * sp)" using a e bs by linarith
    then have "m2 a = m1 a" by (rule rest2)
    moreover have e2: "(lo + beam) * sp = lo * sp + beam * sp" by (simp add: algebra_simps)
    have "\<not> (fo + lo * sp \<le> a \<and> a < fo + (lo + beam) * sp)"
      using a lo_sp unfolding e e2 by linarith
    ultimately show ?thesis using rest1 by simp
  qed
  show ?case using all new_rows new_rest by blast
qed

subsection \<open>What each part of \<^verbatim>\<open>forward\<close> leaves\<close>

lemma invoke_trace [simp]: "snd (invoke E c r) = snd r @ [c]"
  by (simp add: invoke_def split: prod.splits)

lemma invoke_fields [simp]:
  "messenger (fst (invoke E c r)) = messenger (fst r)"
  "pp_size (fst (invoke E c r)) = pp_size (fst r)"
  "pp_rank (fst (invoke E c r)) = pp_rank (fst r)"
  "tp_size (fst (invoke E c r)) = tp_size (fst r)"
  "tp_rank (fst (invoke E c r)) = tp_rank (fst r)"
  "decoder_context (fst (invoke E c r)) = decoder_context (fst r)"
  "initSeqLen (fst (invoke E c r)) = initSeqLen (fst r)"
  "accSeqLen (fst (invoke E c r)) = accSeqLen (fst r)"
  "prefixSeqLen (fst (invoke E c r)) = prefixSeqLen (fst r)"
  "prefixSharing (fst (invoke E c r)) = prefixSharing (fst r)"
  "decoders (fst (invoke E c r)) = decoders (fst r)"
  "predictor (fst (invoke E c r)) = predictor (fst r)"
  "ATTN_MLP_PARALLEL (fst (invoke E c r)) = ATTN_MLP_PARALLEL (fst r)"
  by (simp_all add: invoke_def split: prod.splits)

lemma members_invoke [simp]: "members (fst (invoke E c r)) = members (fst r)"
  by (simp add: members_def)

lemma decoder_layer_members [simp]: "members (fst (decoder_layer E f i r)) = members (fst r)"
  by (simp add: decoder_layer_def Let_def)

lemma decoder_layer_counters [simp]:
  "initSeqLen (fst (decoder_layer E f i r)) = initSeqLen (fst r)"
  "accSeqLen (fst (decoder_layer E f i r)) = accSeqLen (fst r)"
  by (simp_all add: decoder_layer_def Let_def)

lemma fold_decoder_layer_members [simp]:
  "members (fst (fold (decoder_layer E f) is r)) = members (fst r)"
  by (induction "is" arbitrary: r) simp_all

lemma fold_decoder_layer_counters [simp]:
  "initSeqLen (fst (fold (decoder_layer E f) is r)) = initSeqLen (fst r)"
  "accSeqLen (fst (fold (decoder_layer E f) is r)) = accSeqLen (fst r)"
  by (induction "is" arbitrary: r) simp_all

lemma split_ids_loop:
  assumes "0 \<le> P" "0 \<le> n" "P + n \<le> S" "U * S \<le> int (length xs)"
    and "\<forall>bs\<in>set L. 0 \<le> bs \<and> bs < U"
  shows "for_each L
           (\<lambda>bs (prefixIDs, newIDs).
              case slice xs (S * bs) P of
                None \<Rightarrow> None
              | Some prefixRow \<Rightarrow>
                  (case slice xs (S * bs + P) n of
                     None \<Rightarrow> None
                   | Some newRow \<Rightarrow> Some (prefixIDs @ prefixRow, newIDs @ newRow)))
           (p, q)
         = Some (p @ concat (map (\<lambda>bs. take (nat P) (drop (nat (S * bs)) xs)) L),
                 q @ concat (map (\<lambda>bs. take (nat n) (drop (nat (S * bs + P)) xs)) L))"
  using assms(5)
proof (induction L arbitrary: p q)
  case Nil
  show ?case by simp
next
  case (Cons bs L)
  have bs: "0 \<le> bs" "bs + 1 \<le> U" using Cons.prems by simp_all
  have S: "0 \<le> S" using assms(1-3) by simp
  have lo: "0 \<le> S * bs" using S bs by simp
  have "S * (bs + 1) \<le> S * U" using S bs(2) by (rule mult_left_mono [rotated])
  then have hi: "S * bs + S \<le> int (length xs)" using assms(4) by (simp add: algebra_simps)
  have s1: "slice xs (S * bs) P = Some (take (nat P) (drop (nat (S * bs)) xs))"
    using lo hi assms(1-3) by (simp add: slice_def)
  have s2: "slice xs (S * bs + P) n = Some (take (nat n) (drop (nat (S * bs + P)) xs))"
    using lo hi assms(1-3) by (simp add: slice_def)
  show ?case using Cons.IH Cons.prems by (simp add: s1 s2)
qed

lemma split_ids_portions:
  assumes "0 \<le> P" "P \<le> S" "U * S \<le> int (length xs)"
  shows "split_ids xs U S P (S - P) = Some (prefix_portion xs U S P, new_token_portion xs U S P)"
  unfolding split_ids_def prefix_portion_def new_token_portion_def
  using split_ids_loop [of P "S - P" S U xs "[0..U - 1]" "[]" "[]"] assms by simp


lemma forward_embedding_null:
  "decoder_context this = None \<Longrightarrow> forward_embedding E this ids0 dims st la = None"
  by (simp add: forward_embedding_def split: prod.splits)

lemma forward_embedding_plain:
  assumes "decoder_context this = Some c" "\<not> (st = 0 \<and> prefixSharing this)"
  shows "forward_embedding E this ids0 (U, B, S) st la =
    Some (\<lparr>userSideBS = to_int U, beamSize = to_int B,
            batchSize = (if st = 0 then to_int U else to_int U * to_int B), seqLen = to_int S,
            pastSeqLen = (if st = 0 then 0 else accSeqLen this), inputSeqLen = to_int S, ids = ids0,
            ctx = c, step = st, logitsAll = la\<rparr>,
          invoke E (getPositionIds ids0 (if st = 0 then to_int U else to_int U * to_int B) (to_int S)
                      (st + (if prefixSharing this then 1 else 0)))
           (invoke E (prepareAttnMask ids0 (st + (if prefixSharing this then 1 else 0)))
             (apfst (\<lambda>this. this\<lparr>accSeqLen := accSeqLen this + to_int S\<rparr>)
               (invoke E (embeddingForward ids0 (ActBuf embBuf)
                            (if st = 0 then to_int U else to_int U * to_int B) (to_int S))
                 (if st = 0
                  then invoke E (prepareBuffers (to_int U) (to_int B) la)
                         (apfst (\<lambda>this. this\<lparr>initSeqLen := to_int S, accSeqLen := 0\<rparr>)
                            (invoke E (ctx_resize (to_int U) (to_int S) 0) (this, [])))
                  else invoke E (ctx_resize (to_int U * to_int B) (to_int S) (accSeqLen this)) (this, []))))))"
  using assms by (simp add: forward_embedding_def first_step_def Let_def)

lemma forward_embedding_sharing:
  assumes "decoder_context this = Some c" "prefixSharing this"
  shows "forward_embedding E this ids0 (U, B, S) 0 la =
    (case split_ids ids0 (to_int U) (to_int S) (prefixSeqLen this) (to_int S - prefixSeqLen this) of
       None \<Rightarrow> None
     | Some (prefixIDs, newIDs) \<Rightarrow>
        Some (\<lparr>userSideBS = to_int U, beamSize = to_int B, batchSize = to_int U, seqLen = to_int S,
                pastSeqLen = prefixSeqLen this, inputSeqLen = to_int S - prefixSeqLen this,
                ids = newIDs, ctx = c, step = 0, logitsAll = la\<rparr>,
              invoke E (getPositionIds newIDs (to_int U) (to_int S - prefixSeqLen this) 1)
               (invoke E (prepareAttnMask newIDs 1)
                 (apfst (\<lambda>this. this\<lparr>accSeqLen := accSeqLen this + to_int S\<rparr>)
                   (invoke E (embeddingForward newIDs (ActBuf embBuf) (to_int U) (to_int S - prefixSeqLen this))
                     (invoke E (prepareBuffers (to_int U) (to_int B) la)
                       (invoke E (ctx_resize (to_int U) (to_int S - prefixSeqLen this) (prefixSeqLen this))
                         (invoke E (getPositionIds prefixIDs (to_int U) (prefixSeqLen this) 0)
                           (apfst (\<lambda>this. this\<lparr>initSeqLen := to_int S, accSeqLen := 0\<rparr>)
                             (invoke E (ctx_resize (to_int U) (to_int S) 0) (this, [])))))))))))"
  using assms
  by (simp add: forward_embedding_def first_step_def split_prefix_def Let_def
      split: option.splits)

lemma forward_embedding_facts:
  assumes "forward_embedding E this ids0 (U, B, S) st la = Some (f, r)"
  shows "members (fst r) = members this
    \<and> accSeqLen (fst r) = (if st = 0 then 0 else accSeqLen this) + to_int S
    \<and> initSeqLen (fst r) = (if st = 0 then to_int S else initSeqLen this)
    \<and> userSideBS f = to_int U \<and> beamSize f = to_int B
    \<and> batchSize f = (if st = 0 then to_int U else to_int U * to_int B)
    \<and> seqLen f = to_int S \<and> step f = st \<and> logitsAll f = la
    \<and> decoder_context this = Some (ctx f)
    \<and> inputSeqLen f = (if st = 0 \<and> prefixSharing this then to_int S - prefixSeqLen this else to_int S)
    \<and> pastSeqLen f = (if st = 0 then (if prefixSharing this then prefixSeqLen this else 0)
                         else accSeqLen this)"
proof (cases "decoder_context this")
  case None
  then show ?thesis using assms by (simp add: forward_embedding_null)
next
  case (Some c)
  show ?thesis
  proof (cases "st = 0 \<and> prefixSharing this")
    case True
    then obtain prefixIDs newIDs where
      "split_ids ids0 (to_int U) (to_int S) (prefixSeqLen this) (to_int S - prefixSeqLen this) = Some (prefixIDs, newIDs)"
      using assms forward_embedding_sharing [OF Some, of E ids0 U B S la]
      by (auto split: option.splits)
    then show ?thesis
      using assms True Some forward_embedding_sharing [OF Some, of E ids0 U B S la]
      by (auto simp: members_def)
  next
    case False
    show ?thesis
      using assms Some False forward_embedding_plain [OF Some False, of E ids0 U B S la]
      by (auto simp: members_def)
  qed
qed

lemma forward_layers_facts:
  assumes "forward_layers E this ids0 (U, B, S) st la = Some (f, r)"
  shows "members (fst r) = members this
    \<and> accSeqLen (fst r) = (if st = 0 then 0 else accSeqLen this) + to_int S
    \<and> initSeqLen (fst r) = (if st = 0 then to_int S else initSeqLen this)
    \<and> userSideBS f = to_int U \<and> beamSize f = to_int B
    \<and> batchSize f = (if st = 0 then to_int U else to_int U * to_int B)
    \<and> seqLen f = to_int S \<and> step f = st \<and> logitsAll f = la
    \<and> decoder_context this = Some (ctx f)
    \<and> inputSeqLen f = (if st = 0 \<and> prefixSharing this then to_int S - prefixSeqLen this else to_int S)
    \<and> pastSeqLen f = (if st = 0 then (if prefixSharing this then prefixSeqLen this else 0)
                         else accSeqLen this)"
proof -
  obtain r0 where e: "forward_embedding E this ids0 (U, B, S) st la = Some (f, r0)"
    and r: "r = fold (decoder_layer E f) [0..int (length (decoders (fst r0))) - 1]
              (if pp_rank (fst r0) > 0
               then invoke E (MPI_Recv (ActBuf embBuf) (batchSize f * inputSeqLen f * hiddenSize (ctx f))
                                (pp_rank (fst r0) - 1) (100 * (pp_rank (fst r0) - 1)) MPI_COMM_WORLD) r0
               else r0)"
    using assms by (auto simp: forward_layers_def Let_def split: option.splits)
  have "members (fst r) = members (fst r0)" "accSeqLen (fst r) = accSeqLen (fst r0)"
    "initSeqLen (fst r) = initSeqLen (fst r0)"
    unfolding r by simp_all
  then show ?thesis using forward_embedding_facts [OF e] by simp
qed

lemma prepare_lnIn_inplace:
  "\<not> (1 < inputSeqLen f \<and> \<not> logitsAll f) \<Longrightarrow> prepare_lnIn f m = Some (embBuf, m)"
  by (auto simp: prepare_lnIn_def)

lemma prepare_lnIn_copy:
  assumes "1 < inputSeqLen f" "\<not> logitsAll f" "0 \<le> hiddenSize (ctx f)"
  shows "\<exists>m'. prepare_lnIn f m = Some (outBuf f, m')
     \<and> (\<forall>b j. 0 \<le> b \<and> b < batchSize f \<and> 0 \<le> j \<and> j < hiddenSize (ctx f) \<longrightarrow>
            m' (outBuf f + b * hiddenSize (ctx f) + j)
              = m (embBuf + ((b + 1) * inputSeqLen f - 1) * hiddenSize (ctx f) + j))
     \<and> (\<forall>a. \<not> (outBuf f \<le> a \<and> a < outBuf f + batchSize f * hiddenSize (ctx f)) \<longrightarrow> m' a = m a)"
proof (cases "0 \<le> batchSize f")
  case True
  then have k: "int (nat (batchSize f)) \<le> batchSize f" by simp
  obtain m' where
    run: "for_each [0..batchSize f - 1]
            (\<lambda>b m. memcpy m (outBuf f + b * hiddenSize (ctx f))
                       (embBuf + ((b + 1) * inputSeqLen f - 1) * hiddenSize (ctx f))
                       (hiddenSize (ctx f))) m = Some m'"
    and rows: "\<forall>b j. 0 \<le> b \<and> b < batchSize f \<and> 0 \<le> j \<and> j < hiddenSize (ctx f) \<longrightarrow>
            m' (outBuf f + b * hiddenSize (ctx f) + j)
              = m (embBuf + ((b + 1) * inputSeqLen f - 1) * hiddenSize (ctx f) + j)"
    and rest: "\<forall>a. \<not> (outBuf f \<le> a \<and> a < outBuf f + batchSize f * hiddenSize (ctx f)) \<longrightarrow> m' a = m a"
    using last_token_copy [OF assms(3) assms(1) k, of m] True
    by (auto simp: outBuf_def embBuf_def)
  have "prepare_lnIn f m = Some (outBuf f, m')"
    using run assms(1,2) by (simp add: prepare_lnIn_def)
  then show ?thesis using rows rest by blast
next
  case False
  then have e: "[0..batchSize f - 1] = []" by simp
  have "batchSize f * hiddenSize (ctx f) \<le> 0"
    using False assms(3) by (simp add: mult_nonpos_nonneg)
  then show ?thesis using assms(1,2) False by (auto simp: prepare_lnIn_def e)
qed

lemma expand_result_skip:
  "\<not> (step f = 0 \<and> 1 < beamSize f) \<Longrightarrow> expand_result f sp m = Some m"
  by (auto simp: expand_result_def)

lemma expand_result_rows:
  assumes "step f = 0" "1 < beamSize f" "0 \<le> sp"
  shows "\<exists>m'. expand_result f sp m = Some m'
     \<and> (\<forall>b idx j. 0 \<le> b \<and> b < userSideBS f \<and> b * beamSize f \<le> idx \<and> idx < (b + 1) * beamSize f
            \<and> 0 \<le> j \<and> j < sp \<longrightarrow>
            m' (outBuf f + idx * sp + j) = m (outBuf f + b * sp + j))
     \<and> (\<forall>a. \<not> (outBuf f \<le> a \<and> a < outBuf f + userSideBS f * beamSize f * sp) \<longrightarrow> m' a = m a)"
proof -
  define n where "n = nat (userSideBS f)"
  have beam0: "0 < beamSize f" using assms(2) by simp
  obtain m' where
    run: "for_each (rev [0..int n - 1])
            (\<lambda>b. for_each [b * beamSize f..(b + 1) * beamSize f - 1]
                    (\<lambda>idx m. if idx = b then Some m
                              else memcpy m (outBuf f + idx * sp) (outBuf f + b * sp) sp)) m = Some m'"
    and rows: "\<And>r j. 0 \<le> r \<Longrightarrow> r < int n * beamSize f \<Longrightarrow> 0 \<le> j \<Longrightarrow> j < sp \<Longrightarrow>
            m' (outBuf f + r * sp + j) = m (outBuf f + (r div beamSize f) * sp + j)"
    and rest: "\<And>a. \<not> (outBuf f \<le> a \<and> a < outBuf f + int n * beamSize f * sp) \<Longrightarrow> m' a = m a"
    using beam_copy_outer [OF assms(3) assms(2), of n "outBuf f" m] by auto
  have "[0..userSideBS f - 1] = [0..int n - 1]"
    by (cases "0 \<le> userSideBS f") (simp_all add: n_def)
  then have r1: "expand_result f sp m = Some m'"
    using run assms(1,2) by (simp add: expand_result_def)
  have r2: "m' (outBuf f + idx * sp + j) = m (outBuf f + b * sp + j)"
    if h: "0 \<le> b" "b < userSideBS f" "b * beamSize f \<le> idx" "idx < (b + 1) * beamSize f"
      "0 \<le> j" "j < sp" for b idx j
  proof -
    have d: "idx div beamSize f = b" using div_eq_iff_range [OF beam0, of idx b] h by simp
    have "0 \<le> b * beamSize f" using h(1) beam0 by simp
    then have i0: "0 \<le> idx" using h(3) by simp
    have "b + 1 \<le> int n" using h(2) by (simp add: n_def)
    then have "(b + 1) * beamSize f \<le> int n * beamSize f" using beam0 by (intro mult_right_mono) simp_all
    then have "idx < int n * beamSize f" using h(4) by simp
    then show ?thesis using rows [OF i0 _ h(5,6)] d by simp
  qed
  have r3: "m' a = m a"
    if a: "\<not> (outBuf f \<le> a \<and> a < outBuf f + userSideBS f * beamSize f * sp)" for a
  proof (cases "0 \<le> userSideBS f")
    case True
    then show ?thesis using a rest [of a] by (simp add: n_def)
  next
    case False
    then have "n = 0" by (simp add: n_def)
    then show ?thesis using rest [of a] by simp
  qed
  show ?thesis using r1 r2 r3 by blast
qed


lemma members_actBuffers [simp]: "members (this\<lparr>actBuffers := m\<rparr>) = members this"
  by (simp add: members_def)

lemma forward_lnIn_layers:
  assumes "forward_lnIn E this ids0 dims st la = Some (lnIn, f, r)"
  shows "\<exists>r0. forward_layers E this ids0 dims st la = Some (f, r0)
           \<and> members (fst r) = members (fst r0) \<and> initSeqLen (fst r) = initSeqLen (fst r0)
           \<and> accSeqLen (fst r) = accSeqLen (fst r0) \<and> snd r = snd r0"
  using assms by (auto simp: forward_lnIn_def split: option.splits)

lemma forward_logits_layers:
  assumes "forward_logits E this ids0 dims st la = Some (f, r)"
  shows "\<exists>r0. forward_layers E this ids0 dims st la = Some (f, r0)
           \<and> members (fst r) = members (fst r0) \<and> initSeqLen (fst r) = initSeqLen (fst r0)
           \<and> accSeqLen (fst r) = accSeqLen (fst r0)"
proof -
  obtain lnIn r1 where l: "forward_lnIn E this ids0 dims st la = Some (lnIn, f, r1)"
    and r: "r = invoke E (predictor_forward (ActBuf embBuf) (ActBuf (outBuf f))
                            (if \<not> logitsAll f then batchSize f else batchSize f * seqLen f))
                 (invoke E (lastLayerNormForward (ActBuf lnIn) (ActBuf embBuf)
                              (if \<not> logitsAll f then batchSize f else batchSize f * seqLen f)) r1)"
    using assms by (auto simp: forward_logits_def Let_def split: option.splits)
  show ?thesis using forward_lnIn_layers [OF l] unfolding r by auto
qed







subsection \<open>When \<^verbatim>\<open>forward\<close> returns, and the counters it leaves\<close>

lemma forward_layers_returns:
  assumes "decoder_context this = Some c"
    and "st = 0 \<and> prefixSharing this \<longrightarrow>
           0 \<le> prefixSeqLen this \<and> prefixSeqLen this \<le> to_int S \<and> to_int U * to_int S \<le> int (length ids0)"
  shows "\<exists>f r. forward_layers E this ids0 (U, B, S) st la = Some (f, r)"
proof (cases "st = 0 \<and> prefixSharing this")
  case True
  then have "split_ids ids0 (to_int U) (to_int S) (prefixSeqLen this) (to_int S - prefixSeqLen this)
      = Some (prefix_portion ids0 (to_int U) (to_int S) (prefixSeqLen this), new_token_portion ids0 (to_int U) (to_int S) (prefixSeqLen this))"
    using assms(2) by (intro split_ids_portions) simp_all
  then show ?thesis
    using True forward_embedding_sharing [OF assms(1), of E ids0 U B S la]
    by (simp add: forward_layers_def Let_def)
next
  case False
  show ?thesis
    using forward_embedding_plain [OF assms(1) False, of E ids0 U B S la]
    by (simp add: forward_layers_def Let_def)
qed

lemma forward_logits_returns:
  assumes "forward_layers E this ids0 dims st la = Some (f, r)" "0 \<le> hiddenSize (ctx f)"
  shows "\<exists>r2. forward_logits E this ids0 dims st la = Some (f, r2)
           \<and> members (fst r2) = members (fst r) \<and> initSeqLen (fst r2) = initSeqLen (fst r)
           \<and> accSeqLen (fst r2) = accSeqLen (fst r)
           \<and> (\<exists>post. snd r2 = snd r @ post \<and> (\<forall>c\<in>set post. call_ids c = None))"
proof -
  have "\<exists>lnIn m. prepare_lnIn f (actBuffers (fst r)) = Some (lnIn, m)"
  proof (cases "1 < inputSeqLen f \<and> \<not> logitsAll f")
    case True
    then show ?thesis using prepare_lnIn_copy [of f "actBuffers (fst r)"] assms(2) by blast
  next
    case False
    then show ?thesis using prepare_lnIn_inplace [of f "actBuffers (fst r)"] by blast
  qed
  then obtain lnIn m where "prepare_lnIn f (actBuffers (fst r)) = Some (lnIn, m)" by blast
  then show ?thesis
    using assms(1) by (simp add: forward_logits_def forward_lnIn_def Let_def)
qed

lemma forward_counters:
  assumes "forward E this ids0 (U, B, S) st la = Some (result, this', trace)"
  shows "members this' = members this
    \<and> accSeqLen this' = (if st = 0 then 0 else accSeqLen this) + to_int S
    \<and> initSeqLen this' = (if st = 0 then to_int S else initSeqLen this)"
proof -
  obtain f r where l: "forward_layers E this ids0 (U, B, S) st la = Some (f, r)"
    using assms by (auto simp: forward_def split: option.splits)
  note facts = forward_layers_facts [OF l]
  show ?thesis
  proof (cases "pp_rank (fst r) < pp_size (fst r) - 1")
    case True
    then have "this' = fst (invoke E (MPI_Send (ActBuf embBuf)
        (batchSize f * inputSeqLen f * hiddenSize (ctx f)) (pp_rank (fst r) + 1) (100 * pp_rank (fst r)) MPI_COMM_WORLD) r)"
      using assms l by (auto simp: forward_def)
    then show ?thesis using facts by simp
  next
    case False
    then obtain f2 r2 m where g: "forward_logits E this ids0 (U, B, S) st la = Some (f2, r2)"
      and t: "this' = (fst r2)\<lparr>actBuffers := m\<rparr>"
      using assms l by (auto simp: forward_def split: option.splits)
    obtain r0 where "forward_layers E this ids0 (U, B, S) st la = Some (f2, r0)"
      "members (fst r2) = members (fst r0)" "initSeqLen (fst r2) = initSeqLen (fst r0)"
      "accSeqLen (fst r2) = accSeqLen (fst r0)"
      using forward_logits_layers [OF g] by blast
    then show ?thesis using l facts t by simp
  qed
qed

lemma forward_returns:
  assumes "decoder_context this = Some c" "0 \<le> hiddenSize c" "0 \<le> getSplitSize (predictor this)"
    and "st = 0 \<and> prefixSharing this \<longrightarrow>
           0 \<le> prefixSeqLen this \<and> prefixSeqLen this \<le> to_int S \<and> to_int U * to_int S \<le> int (length ids0)"
  shows "\<exists>result this' trace. forward E this ids0 (U, B, S) st la = Some (result, this', trace)"
proof -
  obtain f r where l: "forward_layers E this ids0 (U, B, S) st la = Some (f, r)"
    using forward_layers_returns [OF assms(1,4)] by blast
  note facts = forward_layers_facts [OF l]
  have h: "0 \<le> hiddenSize (ctx f)" using facts assms(1,2) by simp
  show ?thesis
  proof (cases "pp_rank (fst r) < pp_size (fst r) - 1")
    case True
    then show ?thesis using l by (simp add: forward_def)
  next
    case False
    obtain r2 where g: "forward_logits E this ids0 (U, B, S) st la = Some (f, r2)"
      and mem: "members (fst r2) = members (fst r)"
      using forward_logits_returns [OF l h] by blast
    have pred: "predictor (fst r2) = predictor this" using mem facts by (simp add: members_def)
    have "\<exists>m. expand_result f (getSplitSize (predictor this)) (actBuffers (fst r2)) = Some m"
    proof (cases "step f = 0 \<and> 1 < beamSize f")
      case True
      then show ?thesis
        using expand_result_rows [of f "getSplitSize (predictor this)" "actBuffers (fst r2)"] assms(3)
        by blast
    next
      case False
      then show ?thesis by (simp add: expand_result_skip)
    qed
    then show ?thesis using l False g pred by (auto simp: forward_def)
  qed
qed

lemma members_fields:
  assumes "members a = members b"
  shows "decoder_context a = decoder_context b" "predictor a = predictor b"
    "prefixSharing a = prefixSharing b" "prefixSeqLen a = prefixSeqLen b"
    "pp_rank a = pp_rank b" "pp_size a = pp_size b" "decoders a = decoders b"
  using assms by (simp_all add: members_def)

lemma session_decode_steps:
  assumes "decoder_context this = Some c" "0 \<le> hiddenSize c" "0 \<le> getSplitSize (predictor this)"
    and "\<forall>x\<in>set cs. 0 < call_step x"
  shows "\<exists>this'. session E this cs = Some this' \<and> members this' = members this
           \<and> accSeqLen this' = accSeqLen this + sum_list (map call_seqLen cs)
           \<and> initSeqLen this' = initSeqLen this"
  using assms
proof (induction cs arbitrary: this)
  case Nil
  show ?case by simp
next
  case (Cons x xs)
  obtain ids0 U B S st la where x: "x = (ids0, (U, B, S), st, la)" by (cases x) auto
  have st: "0 < st" using Cons.prems(4) by (simp add: x call_step_def)
  then have "st = 0 \<and> prefixSharing this \<longrightarrow>
           0 \<le> prefixSeqLen this \<and> prefixSeqLen this \<le> to_int S \<and> to_int U * to_int S \<le> int (length ids0)"
    by simp
  then obtain result this1 trace where
    fw: "forward E this ids0 (U, B, S) st la = Some (result, this1, trace)"
    using forward_returns [OF Cons.prems(1-3), of st S U ids0 E B la] by blast
  have c1: "members this1 = members this" "accSeqLen this1 = accSeqLen this + to_int S"
    "initSeqLen this1 = initSeqLen this"
    using forward_counters [OF fw] st by simp_all
  have p1: "decoder_context this1 = Some c" "0 \<le> getSplitSize (predictor this1)"
    using members_fields [OF c1(1)] Cons.prems(1,3) by simp_all
  have "\<forall>x\<in>set xs. 0 < call_step x" using Cons.prems(4) by simp
  from Cons.IH [OF p1(1) Cons.prems(2) p1(2) this]
  obtain this' where "session E this1 xs = Some this'" "members this' = members this1"
    "accSeqLen this' = accSeqLen this1 + sum_list (map call_seqLen xs)"
    "initSeqLen this' = initSeqLen this1" by blast
  moreover have "call_seqLen x = to_int S" by (simp add: x call_seqLen_def call_dims2_def)
  ultimately show ?case using fw c1 by (simp add: x)
qed

subsection \<open>Buffers under callees that write nothing\<close>







lemma example_decoder_fields:
  "decoder_context (example_decoder p k s) = Some example_context"
  "prefixSharing (example_decoder p k s) = s"
  "prefixSeqLen (example_decoder p k s) = 2"
  "pp_size (example_decoder p k s) = p"
  "pp_rank (example_decoder p k s) = k"
  "actBuffers (example_decoder p k s) = (\<lambda>a. a)"
  "predictor (example_decoder p k s) = \<lparr>getSplitOffset = 0, getSplitSize = 3\<rparr>"
  "decoders (example_decoder p k s) = [0, 1]"
  "hiddenSize example_context = 4"
  by (simp_all add: example_decoder_def example_context_def)


lemma example_prefix_fields:
  "prefixSharing ((example_decoder p k True)\<lparr>prefixSeqLen := 16\<rparr>)"
  "decoder_context ((example_decoder p k True)\<lparr>prefixSeqLen := 16\<rparr>) = Some example_context"
  "prefixSeqLen ((example_decoder p k True)\<lparr>prefixSeqLen := 16\<rparr>) = 16"
  "decoders ((example_decoder p k True)\<lparr>prefixSeqLen := 16\<rparr>) = [0, 1]"
  "predictor ((example_decoder p k True)\<lparr>prefixSeqLen := 16\<rparr>) = \<lparr>getSplitOffset = 0, getSplitSize = 3\<rparr>"
  by (simp_all add: example_decoder_def)

lemma example_portions:
  "prefix_portion [0, 1, 2, 3, 4, 5, 6, 7, 8, 9, 10, 11, 12, 13, 14, 15, 16, 17, 18, 19] 1 20 16
     = [0, 1, 2, 3, 4, 5, 6, 7, 8, 9, 10, 11, 12, 13, 14, 15]"
  "new_token_portion [0, 1, 2, 3, 4, 5, 6, 7, 8, 9, 10, 11, 12, 13, 14, 15, 16, 17, 18, 19] 1 20 16
     = [16, 17, 18, 19]"
  by (simp_all add: prefix_portion_def new_token_portion_def)

subsection \<open>The input of the final layer norm\<close>




subsection \<open>The logits of step 0 under beam search\<close>



subsection \<open>The counters of a session\<close>

lemma session_counters:
  assumes "session E this cs = Some this'" "\<forall>x\<in>set cs. 0 < call_step x"
  shows "members this' = members this
           \<and> accSeqLen this' = accSeqLen this + sum_list (map call_seqLen cs)
           \<and> initSeqLen this' = initSeqLen this"
  using assms
proof (induction cs arbitrary: this)
  case Nil
  then show ?case by simp
next
  case (Cons x xs)
  obtain ids0 U B S st la where x: "x = (ids0, (U, B, S), st, la)" by (cases x) auto
  have st: "0 < st" using Cons.prems(2) by (simp add: x call_step_def)
  obtain result this1 trace where
    fw: "forward E this ids0 (U, B, S) st la = Some (result, this1, trace)"
    and rest: "session E this1 xs = Some this'"
    using Cons.prems(1) by (auto simp: x split: option.splits)
  have c1: "members this1 = members this" "accSeqLen this1 = accSeqLen this + to_int S"
    "initSeqLen this1 = initSeqLen this"
    using forward_counters [OF fw] st by simp_all
  have "\<forall>x\<in>set xs. 0 < call_step x" using Cons.prems(2) by simp
  from Cons.IH [OF rest this] have "members this' = members this1"
    "accSeqLen this' = accSeqLen this1 + sum_list (map call_seqLen xs)"
    "initSeqLen this' = initSeqLen this1" by simp_all
  moreover have "call_seqLen x = to_int S" by (simp add: x call_seqLen_def call_dims2_def)
  ultimately show ?case using c1 by simp
qed

text \<open>
  The conversion at work: a call whose \<^verbatim>\<open>dims[2]\<close> is \<open>2^32 + 1\<close> runs with \<open>seqLen = 1\<close>
  and leaves both counters at 1.
\<close>

lemma forward_converts_dims:
  "\<exists>result this' trace.
      forward (example_Env 1) (example_decoder 1 0 False) [1] (1, 1, 4294967297) 0 False
        = Some (result, this', trace)
    \<and> accSeqLen this' = 1 \<and> initSeqLen this' = 1"
proof -
  let ?d = "example_decoder 1 0 False"
  have wf: "(0::int) = 0 \<and> prefixSharing ?d \<longrightarrow>
      0 \<le> prefixSeqLen ?d \<and> prefixSeqLen ?d \<le> to_int 4294967297
      \<and> to_int 1 * to_int 4294967297 \<le> int (length [1 :: int])"
    by (simp add: example_decoder_fields)
  have h: "0 \<le> hiddenSize example_context" "0 \<le> getSplitSize (predictor ?d)"
    by (simp_all add: example_decoder_fields)
  obtain result this' trace where
    fw: "forward (example_Env 1) ?d [1] (1, 1, 4294967297) 0 False = Some (result, this', trace)"
    using forward_returns [OF example_decoder_fields(1) h wf] by blast
  have "accSeqLen this' = 1" "initSeqLen this' = 1"
    using forward_counters [OF fw] by (simp_all add: to_int_def)
  then show ?thesis using fw by blast
qed

text \<open>
  Claim C1.  Take an object without prefix sharing and a session of \<^verbatim>\<open>forward\<close> calls
  whose first call has step 0 and whose later calls have a positive step.  The sequence
  length of a call is its local \<^verbatim>\<open>seqLen\<close>, the \<^verbatim>\<open>int\<close> value of \<^verbatim>\<open>dims[2]\<close>.  For every
  \<open>i\<close> from 1 to the number of calls: whenever the first \<open>i\<close> calls return,
  \<open>accSeqLen\<close> is then the sum of the sequence lengths of these \<open>i\<close> calls and
  \<open>initSeqLen\<close> is the sequence length of the first call, whatever the two counters
  were before the session (the call with step 0 resets them); when every \<^verbatim>\<open>dims[2]\<close>
  lies in the range of \<^verbatim>\<open>int\<close>, these are the sum of the \<^verbatim>\<open>dims[2]\<close> themselves and the
  first \<^verbatim>\<open>dims[2]\<close>; and the calls do return when the object has a context with a
  non-negative hidden size and a predictor with a non-negative split size.
\<close>

theorem session_accSeqLen:
  assumes "\<not> prefixSharing this"
    and "calls \<noteq> []" "call_step (hd calls) = 0" "\<forall>x\<in>set (tl calls). 0 < call_step x"
    and "0 < i" "i \<le> length calls"
  shows "(\<forall>this'. session E this (take i calls) = Some this' \<longrightarrow>
            accSeqLen this' = sum_list (map call_seqLen (take i calls))
            \<and> initSeqLen this' = call_seqLen (hd calls))
       \<and> ((\<forall>x\<in>set (take i calls). - 2147483648 \<le> call_dims2 x \<and> call_dims2 x < 2147483648) \<longrightarrow>
            (\<forall>this'. session E this (take i calls) = Some this' \<longrightarrow>
               accSeqLen this' = sum_list (map call_dims2 (take i calls))
               \<and> initSeqLen this' = call_dims2 (hd calls)))
       \<and> (\<forall>c. decoder_context this = Some c \<and> 0 \<le> hiddenSize c
                \<and> 0 \<le> getSplitSize (predictor this) \<longrightarrow>
            (\<exists>this'. session E this (take i calls) = Some this'))"
proof -
  obtain x xs where calls: "calls = x # xs" using assms(2) by (cases calls) auto
  obtain k where i: "i = Suc k" using assms(5) by (cases i) auto
  obtain ids0 U B S st la where x: "x = (ids0, (U, B, S), st, la)" by (cases x) auto
  have st: "st = 0" using assms(3) by (simp add: calls x call_step_def)
  have sx: "call_seqLen x = to_int S" by (simp add: x call_seqLen_def call_dims2_def)
  have later: "\<forall>x\<in>set (take k xs). 0 < call_step x"
    using assms(4) by (auto simp: calls dest: in_set_takeD)
  have part1: "accSeqLen this' = sum_list (map call_seqLen (take i calls))
            \<and> initSeqLen this' = call_seqLen (hd calls)"
    if s: "session E this (take i calls) = Some this'" for this'
  proof -
    obtain result this1 trace where
      fw: "forward E this ids0 (U, B, S) st la = Some (result, this1, trace)"
      and rest: "session E this1 (take k xs) = Some this'"
      using s by (auto simp: calls i x split: option.splits)
    have c1: "accSeqLen this1 = to_int S" "initSeqLen this1 = to_int S"
      using forward_counters [OF fw] st by simp_all
    show ?thesis using session_counters [OF rest later] c1 sx by (simp add: calls i)
  qed
  have part2: "accSeqLen this' = sum_list (map call_dims2 (take i calls))
            \<and> initSeqLen this' = call_dims2 (hd calls)"
    if fit: "\<forall>x\<in>set (take i calls). - 2147483648 \<le> call_dims2 x \<and> call_dims2 x < 2147483648"
      and s: "session E this (take i calls) = Some this'" for this'
  proof -
    have same: "call_seqLen y = call_dims2 y" if "y \<in> set (take i calls)" for y
      using fit that by (simp add: call_seqLen_def to_int_in_range)
    then have eq: "map call_seqLen (take i calls) = map call_dims2 (take i calls)" by simp
    have first: "hd calls \<in> set (take i calls)" by (simp add: calls i)
    have "accSeqLen this' = sum_list (map call_dims2 (take i calls))"
      using part1 [OF s] by (simp only: eq)
    moreover have "initSeqLen this' = call_dims2 (hd calls)"
      using part1 [OF s] same [OF first] by simp
    ultimately show ?thesis by simp
  qed
  have part3: "\<exists>this'. session E this (take i calls) = Some this'"
    if h: "decoder_context this = Some c \<and> 0 \<le> hiddenSize c \<and> 0 \<le> getSplitSize (predictor this)"
    for c
  proof -
    have wf: "st = 0 \<and> prefixSharing this \<longrightarrow>
           0 \<le> prefixSeqLen this \<and> prefixSeqLen this \<le> to_int S
           \<and> to_int U * to_int S \<le> int (length ids0)"
      using assms(1) by simp
    obtain result this1 trace where
      fw: "forward E this ids0 (U, B, S) st la = Some (result, this1, trace)"
      using forward_returns [of this c st S U ids0 E B la] h wf by blast
    have m1: "members this1 = members this" using forward_counters [OF fw] by simp
    have p1: "decoder_context this1 = Some c" "0 \<le> getSplitSize (predictor this1)"
      using members_fields [OF m1] h by simp_all
    obtain this' where "session E this1 (take k xs) = Some this'"
      using session_decode_steps [OF p1(1) _ p1(2) later, of E] h by blast
    then show ?thesis using fw by (simp add: calls i x)
  qed
  show ?thesis using part1 part2 part3 by blast
qed

theorem session_accSeqLen_witness:
  "\<exists>this'. session (example_Env 1) (example_decoder 1 0 False)
              [([1, 2, 3, 4, 5], (1, 1, 5), 0, False), ([6], (1, 1, 1), 1, False),
               ([7], (1, 1, 1), 2, False)] = Some this'
     \<and> accSeqLen this' = 7 \<and> initSeqLen this' = 5
     \<and> accSeqLen (example_decoder 1 0 False) = 9 \<and> initSeqLen (example_decoder 1 0 False) = 7"
proof -
  let ?calls = "[([1, 2, 3, 4, 5], (1, 1, 5), 0, False), ([6], (1, 1, 1), 1, False),
               ([7], (1, 1, 1), 2, False)] :: (int list \<times> (int \<times> int \<times> int) \<times> int \<times> bool) list"
  let ?d = "example_decoder 1 0 False"
  have a: "\<not> prefixSharing ?d" by (simp add: example_decoder_fields)
  have b: "?calls \<noteq> []" "call_step (hd ?calls) = 0" "\<forall>x\<in>set (tl ?calls). 0 < call_step x"
    "0 < (3::nat)" "3 \<le> length ?calls"
    by (simp_all add: call_step_def)
  have c: "decoder_context ?d = Some example_context \<and> 0 \<le> hiddenSize example_context
      \<and> 0 \<le> getSplitSize (predictor ?d)"
    by (simp add: example_decoder_fields)
  note t = session_accSeqLen [OF a b, of "example_Env 1"]
  obtain this' where s: "session (example_Env 1) ?d (take 3 ?calls) = Some this'"
    using t c by blast
  then have "accSeqLen this' = sum_list (map call_seqLen (take 3 ?calls))
      \<and> initSeqLen this' = call_seqLen (hd ?calls)"
    using t by blast
  then have "accSeqLen this' = 7" "initSeqLen this' = 5"
    by (simp_all add: call_seqLen_def call_dims2_def to_int_def)
  moreover have "accSeqLen ?d = 9" "initSeqLen ?d = 7" by (simp_all add: example_decoder_def)
  ultimately show ?thesis using s by simp
qed

subsection \<open>The calls of a step with prefix sharing\<close>

lemma decoder_layer_trace:
  "\<exists>post. snd (decoder_layer E f i r)
      = snd r @ (if step f = 0 \<and> prefixSharing (fst r)
                 then [expandPrefixCache i (userSideBS f) (prefixSeqLen (fst r))] else [])
          @ forwardAttention i (ActBuf embBuf) (ActBuf (outBuf f)) TmpBuf
              (inputSeqLen f) (pastSeqLen f) (step f = 0) # post
     \<and> (\<forall>c\<in>set post. call_ids c = None)"
  by (simp add: decoder_layer_def Let_def)

lemma fold_decoder_layer_trace:
  "\<exists>post. snd (fold (decoder_layer E f) is r) = snd r @ post
     \<and> (\<forall>c\<in>set post. call_ids c = None)
     \<and> (step f = 0 \<and> prefixSharing (fst r) \<longrightarrow>
          (\<forall>i\<in>set is. \<exists>pre' post'. post =
             pre' @ [expandPrefixCache i (userSideBS f) (prefixSeqLen (fst r)),
                     forwardAttention i (ActBuf embBuf) (ActBuf (outBuf f)) TmpBuf
                       (inputSeqLen f) (pastSeqLen f) True] @ post'))"
proof (induction "is" arbitrary: r)
  case Nil
  show ?case by simp
next
  case (Cons i "is")
  define r1 where "r1 = decoder_layer E f i r"
  define A where "A = (if step f = 0 \<and> prefixSharing (fst r)
                 then [expandPrefixCache i (userSideBS f) (prefixSeqLen (fst r))] else [])
          @ [forwardAttention i (ActBuf embBuf) (ActBuf (outBuf f)) TmpBuf
              (inputSeqLen f) (pastSeqLen f) (step f = 0)]"
  obtain p1 where t1: "snd r1 = snd r @ A @ p1" and n1: "\<forall>c\<in>set p1. call_ids c = None"
    using decoder_layer_trace [of E f i r] unfolding r1_def A_def by auto
  have m1: "members (fst r1) = members (fst r)" by (simp add: r1_def)
  have s1: "prefixSharing (fst r1) = prefixSharing (fst r)" "prefixSeqLen (fst r1) = prefixSeqLen (fst r)"
    using members_fields [OF m1] by simp_all
  obtain p2 where t2: "snd (fold (decoder_layer E f) is r1) = snd r1 @ p2"
    and n2: "\<forall>c\<in>set p2. call_ids c = None"
    and a2: "step f = 0 \<and> prefixSharing (fst r) \<longrightarrow>
          (\<forall>j\<in>set is. \<exists>pre' post'. p2 =
             pre' @ [expandPrefixCache j (userSideBS f) (prefixSeqLen (fst r)),
                     forwardAttention j (ActBuf embBuf) (ActBuf (outBuf f)) TmpBuf
                       (inputSeqLen f) (pastSeqLen f) True] @ post')"
    using Cons.IH [of r1] unfolding s1 by blast
  have nA: "\<forall>c\<in>set A. call_ids c = None" by (simp add: A_def)
  have tr: "snd (fold (decoder_layer E f) (i # is) r) = snd r @ (A @ p1 @ p2)"
    using t1 t2 by (simp add: r1_def)
  have nn: "\<forall>c\<in>set (A @ p1 @ p2). call_ids c = None" using nA n1 n2 by auto
  have adj: "\<exists>pre' post'. A @ p1 @ p2 =
             pre' @ [expandPrefixCache j (userSideBS f) (prefixSeqLen (fst r)),
                     forwardAttention j (ActBuf embBuf) (ActBuf (outBuf f)) TmpBuf
                       (inputSeqLen f) (pastSeqLen f) True] @ post'"
    if h: "step f = 0 \<and> prefixSharing (fst r)" and j: "j \<in> set (i # is)" for j
  proof (cases "j = i")
    case True
    have "A @ p1 @ p2 = [] @ [expandPrefixCache j (userSideBS f) (prefixSeqLen (fst r)),
                     forwardAttention j (ActBuf embBuf) (ActBuf (outBuf f)) TmpBuf
                       (inputSeqLen f) (pastSeqLen f) True] @ (p1 @ p2)"
      using h True by (simp add: A_def)
    then show ?thesis by blast
  next
    case False
    then have "j \<in> set is" using j by simp
    then obtain pre' post' where "p2 =
             pre' @ [expandPrefixCache j (userSideBS f) (prefixSeqLen (fst r)),
                     forwardAttention j (ActBuf embBuf) (ActBuf (outBuf f)) TmpBuf
                       (inputSeqLen f) (pastSeqLen f) True] @ post'"
      using a2 h by blast
    then have "A @ p1 @ p2 = (A @ p1 @ pre') @ [expandPrefixCache j (userSideBS f) (prefixSeqLen (fst r)),
                     forwardAttention j (ActBuf embBuf) (ActBuf (outBuf f)) TmpBuf
                       (inputSeqLen f) (pastSeqLen f) True] @ post'"
      by simp
    then show ?thesis by blast
  qed
  show ?case using tr nn adj by blast
qed

lemma forward_logits_trace:
  assumes "forward_layers E this ids0 dims st la = Some (f, r)"
    and "forward_logits E this ids0 dims st la = Some (f2, r2)"
  shows "\<exists>post. snd r2 = snd r @ post \<and> (\<forall>c\<in>set post. call_ids c = None)"
proof -
  obtain lnIn r1 where l: "forward_lnIn E this ids0 dims st la = Some (lnIn, f2, r1)"
    and r: "r2 = invoke E (predictor_forward (ActBuf embBuf) (ActBuf (outBuf f2))
                            (if \<not> logitsAll f2 then batchSize f2 else batchSize f2 * seqLen f2))
                 (invoke E (lastLayerNormForward (ActBuf lnIn) (ActBuf embBuf)
                              (if \<not> logitsAll f2 then batchSize f2 else batchSize f2 * seqLen f2)) r1)"
    using assms(2) by (auto simp: forward_logits_def Let_def split: option.splits)
  have "snd r1 = snd r" using forward_lnIn_layers [OF l] assms(1) by auto
  then show ?thesis unfolding r by simp
qed

lemma forward_trace_extends:
  assumes "forward_layers E this ids0 dims st la = Some (f, r)"
    and "forward E this ids0 dims st la = Some (result, r')"
  shows "\<exists>post. snd r' = snd r @ post \<and> (\<forall>c\<in>set post. call_ids c = None)"
proof (cases "pp_rank (fst r) < pp_size (fst r) - 1")
  case True
  then have "r' = invoke E (MPI_Send (ActBuf embBuf) (batchSize f * inputSeqLen f * hiddenSize (ctx f))
                              (pp_rank (fst r) + 1) (100 * pp_rank (fst r)) MPI_COMM_WORLD) r"
    using assms by (auto simp: forward_def)
  then show ?thesis by simp
next
  case False
  then obtain f2 r2 m where g: "forward_logits E this ids0 dims st la = Some (f2, r2)"
    and t: "r' = apfst (\<lambda>this. this\<lparr>actBuffers := m\<rparr>) r2"
    using assms by (auto simp: forward_def split: option.splits)
  show ?thesis using forward_logits_trace [OF assms(1) g] unfolding t by simp
qed

lemma forward_layers_sharing:
  assumes "prefixSharing this" "decoder_context this = Some c"
    and "0 \<le> prefixSeqLen this" "prefixSeqLen this \<le> to_int S" "to_int U * to_int S \<le> int (length ids0)"
  shows "\<exists>f r. forward_layers E this ids0 (U, B, S) 0 la = Some (f, r)
     \<and> inputSeqLen f = to_int S - prefixSeqLen this \<and> pastSeqLen f = prefixSeqLen this
     \<and> batchSize f = to_int U \<and> ctx f = c
     \<and> ids f = new_token_portion ids0 (to_int U) (to_int S) (prefixSeqLen this)
     \<and> take 7 (snd r) =
          [ctx_resize (to_int U) (to_int S) 0,
           getPositionIds (prefix_portion ids0 (to_int U) (to_int S) (prefixSeqLen this)) (to_int U) (prefixSeqLen this) 0,
           ctx_resize (to_int U) (to_int S - prefixSeqLen this) (prefixSeqLen this),
           prepareBuffers (to_int U) (to_int B) la,
           embeddingForward (new_token_portion ids0 (to_int U) (to_int S) (prefixSeqLen this)) (ActBuf embBuf) (to_int U)
             (to_int S - prefixSeqLen this),
           prepareAttnMask (new_token_portion ids0 (to_int U) (to_int S) (prefixSeqLen this)) 1,
           getPositionIds (new_token_portion ids0 (to_int U) (to_int S) (prefixSeqLen this)) (to_int U) (to_int S - prefixSeqLen this) 1]
     \<and> (\<forall>c\<in>set (drop 7 (snd r)). call_ids c = None)
     \<and> (\<forall>i. 0 \<le> i \<and> i < int (length (decoders this)) \<longrightarrow>
           (\<exists>pre post. snd r =
              pre @ [expandPrefixCache i (to_int U) (prefixSeqLen this),
                     forwardAttention i (ActBuf embBuf) (ActBuf (outBuf f)) TmpBuf
                       (to_int S - prefixSeqLen this) (prefixSeqLen this) True] @ post))"
proof -
  define P where "P = prefixSeqLen this"
  define new where "new = new_token_portion ids0 (to_int U) (to_int S) P"
  define pre where "pre = prefix_portion ids0 (to_int U) (to_int S) P"
  define f :: frame where "f = \<lparr>userSideBS = to_int U, beamSize = to_int B, batchSize = to_int U, seqLen = to_int S,
                pastSeqLen = P, inputSeqLen = to_int S - P,
                ids = new, ctx = c, step = 0, logitsAll = la\<rparr>"
  define r0 where "r0 = invoke E (getPositionIds new (to_int U) (to_int S - P) 1)
               (invoke E (prepareAttnMask new 1)
                 (apfst (\<lambda>this. this\<lparr>accSeqLen := accSeqLen this + to_int S\<rparr>)
                   (invoke E (embeddingForward new (ActBuf embBuf) (to_int U) (to_int S - P))
                     (invoke E (prepareBuffers (to_int U) (to_int B) la)
                       (invoke E (ctx_resize (to_int U) (to_int S - P) P)
                         (invoke E (getPositionIds pre (to_int U) P 0)
                           (apfst (\<lambda>this. this\<lparr>initSeqLen := to_int S, accSeqLen := 0\<rparr>)
                             (invoke E (ctx_resize (to_int U) (to_int S) 0) (this, [])))))))))"
  define seven where "seven = [ctx_resize (to_int U) (to_int S) 0, getPositionIds pre (to_int U) P 0, ctx_resize (to_int U) (to_int S - P) P,
           prepareBuffers (to_int U) (to_int B) la, embeddingForward new (ActBuf embBuf) (to_int U) (to_int S - P),
           prepareAttnMask new 1, getPositionIds new (to_int U) (to_int S - P) 1]"
  have sp: "split_ids ids0 (to_int U) (to_int S) P (to_int S - P) = Some (pre, new)"
    unfolding pre_def new_def P_def using assms(3-5) by (intro split_ids_portions)
  have emb: "forward_embedding E this ids0 (U, B, S) 0 la = Some (f, r0)"
    using forward_embedding_sharing [OF assms(2,1), of E ids0 U B S la] sp
    by (simp add: f_def r0_def P_def)
  have t0: "snd r0 = seven" by (simp add: r0_def seven_def)
  have m0: "members (fst r0) = members this" by (simp add: r0_def members_def)
  define r1 where "r1 = (if pp_rank (fst r0) > 0
                    then invoke E (MPI_Recv (ActBuf embBuf) (batchSize f * inputSeqLen f * hiddenSize (ctx f))
                                     (pp_rank (fst r0) - 1) (100 * (pp_rank (fst r0) - 1)) MPI_COMM_WORLD) r0
                    else r0)"
  define r where "r = fold (decoder_layer E f) [0..int (length (decoders (fst r0))) - 1] r1"
  have lay: "forward_layers E this ids0 (U, B, S) 0 la = Some (f, r)"
    using emb by (simp add: forward_layers_def Let_def r_def r1_def)
  obtain q1 where t1: "snd r1 = seven @ q1" and n1: "\<forall>c\<in>set q1. call_ids c = None"
    using t0 by (cases "pp_rank (fst r0) > 0") (simp_all add: r1_def)
  have m1: "members (fst r1) = members this" using m0 by (simp add: r1_def)
  have s1: "prefixSharing (fst r1)" "prefixSeqLen (fst r1) = P" "decoders (fst r0) = decoders this"
    using members_fields [OF m1] members_fields [OF m0] assms(1) by (simp_all add: P_def)
  obtain post where t2: "snd r = snd r1 @ post" and n2: "\<forall>c\<in>set post. call_ids c = None"
    and adj: "\<forall>i\<in>set [0..int (length (decoders this)) - 1]. \<exists>pre' post'. post =
             pre' @ [expandPrefixCache i (to_int U) P,
                     forwardAttention i (ActBuf embBuf) (ActBuf (outBuf f)) TmpBuf (to_int S - P) P True] @ post'"
    using fold_decoder_layer_trace [of E f "[0..int (length (decoders this)) - 1]" r1] s1
    by (auto simp: r_def f_def)
  have len7: "length seven = 7" by (simp add: seven_def)
  have tr: "snd r = seven @ q1 @ post" using t1 t2 by simp
  have c1: "take 7 (snd r) = seven" using tr len7 by simp
  have c2: "\<forall>c\<in>set (drop 7 (snd r)). call_ids c = None" using tr len7 n1 n2 by auto
  have c3: "\<exists>pre' post'. snd r =
              pre' @ [expandPrefixCache i (to_int U) P,
                     forwardAttention i (ActBuf embBuf) (ActBuf (outBuf f)) TmpBuf (to_int S - P) P True] @ post'"
    if "0 \<le> i \<and> i < int (length (decoders this))" for i
  proof -
    have "i \<in> set [0..int (length (decoders this)) - 1]" using that by simp
    then obtain pre' post' where "post =
             pre' @ [expandPrefixCache i (to_int U) P,
                     forwardAttention i (ActBuf embBuf) (ActBuf (outBuf f)) TmpBuf (to_int S - P) P True] @ post'"
      using adj by blast
    then have "snd r = (seven @ q1 @ pre') @ [expandPrefixCache i (to_int U) P,
                     forwardAttention i (ActBuf embBuf) (ActBuf (outBuf f)) TmpBuf (to_int S - P) P True] @ post'"
      using tr by simp
    then show ?thesis by blast
  qed
  have ff: "inputSeqLen f = to_int S - P" "pastSeqLen f = P" "batchSize f = to_int U" "ctx f = c" "ids f = new"
    by (simp_all add: f_def)
  show ?thesis
    using lay ff c1 c2 c3 unfolding seven_def new_def pre_def P_def by blast
qed

text \<open>
  Claim C6.  Write \<open>U\<close> and \<open>S\<close> here for the locals \<open>userSideBS\<close> and \<open>seqLen\<close>, the \<^verbatim>\<open>int\<close>
  values of \<^verbatim>\<open>dims[0]\<close> and \<^verbatim>\<open>dims[2]\<close>.
  Let prefix sharing be on, with a prefix length \<open>0 \<le> prefixSeqLen \<le> S\<close>, and
  let \<^verbatim>\<open>forward\<close> be called with step 0 on \<open>U\<close> sequences of \<open>S\<close> tokens each.  Then the
  call reaches the end of the layer loop, with \<open>inputSeqLen = S - prefixSeqLen\<close>.  Its
  first seven calls are: the context resize, the position ids of the prefix portion
  (the first \<open>prefixSeqLen\<close> tokens of each sequence), the second context resize, the
  buffers, the embedding of the new-token portion (the other \<open>S - prefixSeqLen\<close> tokens
  of each sequence) with length \<open>inputSeqLen\<close>, the attention mask and the position ids
  of the new-token portion.  No later call of \<^verbatim>\<open>forward\<close> is handed token ids, so the prefix
  portion is used for position ids only.  For every layer index \<open>i\<close> of the stage, the
  prefix cache of layer \<open>i\<close> is expanded for \<open>U\<close> rows immediately before the attention
  of layer \<open>i\<close> runs, on \<open>inputSeqLen\<close> new tokens after \<open>prefixSeqLen\<close> past ones.
\<close>

theorem forward_prefix_sharing_split:
  assumes "prefixSharing this" "decoder_context this = Some c"
    and "0 \<le> prefixSeqLen this" "prefixSeqLen this \<le> to_int S" "to_int U * to_int S \<le> int (length ids0)"
  shows "\<exists>f r. forward_layers E this ids0 (U, B, S) 0 la = Some (f, r)
     \<and> inputSeqLen f = to_int S - prefixSeqLen this \<and> pastSeqLen f = prefixSeqLen this
     \<and> ids f = new_token_portion ids0 (to_int U) (to_int S) (prefixSeqLen this)
     \<and> take 7 (snd r) =
          [ctx_resize (to_int U) (to_int S) 0,
           getPositionIds (prefix_portion ids0 (to_int U) (to_int S) (prefixSeqLen this)) (to_int U) (prefixSeqLen this) 0,
           ctx_resize (to_int U) (to_int S - prefixSeqLen this) (prefixSeqLen this),
           prepareBuffers (to_int U) (to_int B) la,
           embeddingForward (new_token_portion ids0 (to_int U) (to_int S) (prefixSeqLen this)) (ActBuf embBuf) (to_int U)
             (to_int S - prefixSeqLen this),
           prepareAttnMask (new_token_portion ids0 (to_int U) (to_int S) (prefixSeqLen this)) 1,
           getPositionIds (new_token_portion ids0 (to_int U) (to_int S) (prefixSeqLen this)) (to_int U) (to_int S - prefixSeqLen this) 1]
     \<and> (\<forall>c\<in>set (drop 7 (snd r)). call_ids c = None)
     \<and> (\<forall>i. 0 \<le> i \<and> i < int (length (decoders this)) \<longrightarrow>
           (\<exists>pre post. snd r =
              pre @ [expandPrefixCache i (to_int U) (prefixSeqLen this),
                     forwardAttention i (ActBuf embBuf) (ActBuf (outBuf f)) TmpBuf
                       (to_int S - prefixSeqLen this) (prefixSeqLen this) True] @ post))
     \<and> (\<forall>result r'. forward E this ids0 (U, B, S) 0 la = Some (result, r') \<longrightarrow>
           (\<exists>post. snd r' = snd r @ post \<and> (\<forall>c\<in>set post. call_ids c = None)))"
proof -
  obtain f r where l: "forward_layers E this ids0 (U, B, S) 0 la = Some (f, r)"
    and rest: "inputSeqLen f = to_int S - prefixSeqLen this" "pastSeqLen f = prefixSeqLen this"
     "ids f = new_token_portion ids0 (to_int U) (to_int S) (prefixSeqLen this)"
     "take 7 (snd r) =
          [ctx_resize (to_int U) (to_int S) 0,
           getPositionIds (prefix_portion ids0 (to_int U) (to_int S) (prefixSeqLen this)) (to_int U) (prefixSeqLen this) 0,
           ctx_resize (to_int U) (to_int S - prefixSeqLen this) (prefixSeqLen this),
           prepareBuffers (to_int U) (to_int B) la,
           embeddingForward (new_token_portion ids0 (to_int U) (to_int S) (prefixSeqLen this)) (ActBuf embBuf) (to_int U)
             (to_int S - prefixSeqLen this),
           prepareAttnMask (new_token_portion ids0 (to_int U) (to_int S) (prefixSeqLen this)) 1,
           getPositionIds (new_token_portion ids0 (to_int U) (to_int S) (prefixSeqLen this)) (to_int U) (to_int S - prefixSeqLen this) 1]"
     "\<forall>c\<in>set (drop 7 (snd r)). call_ids c = None"
     "\<forall>i. 0 \<le> i \<and> i < int (length (decoders this)) \<longrightarrow>
           (\<exists>pre post. snd r =
              pre @ [expandPrefixCache i (to_int U) (prefixSeqLen this),
                     forwardAttention i (ActBuf embBuf) (ActBuf (outBuf f)) TmpBuf
                       (to_int S - prefixSeqLen this) (prefixSeqLen this) True] @ post)"
    using forward_layers_sharing [OF assms, of E B la] by blast
  have "\<forall>result r'. forward E this ids0 (U, B, S) 0 la = Some (result, r') \<longrightarrow>
           (\<exists>post. snd r' = snd r @ post \<and> (\<forall>c\<in>set post. call_ids c = None))"
    using forward_trace_extends [OF l] by blast
  then show ?thesis using l rest by blast
qed

theorem forward_prefix_sharing_split_witness:
  "\<exists>f r. forward_layers (example_Env 1) ((example_decoder 1 0 True)\<lparr>prefixSeqLen := 16\<rparr>)
            [0, 1, 2, 3, 4, 5, 6, 7, 8, 9, 10, 11, 12, 13, 14, 15, 16, 17, 18, 19] (1, 1, 20) 0 False
            = Some (f, r)
     \<and> inputSeqLen f = 4 \<and> pastSeqLen f = 16 \<and> ids f = [16, 17, 18, 19]
     \<and> take 7 (snd r) =
          [ctx_resize 1 20 0,
           getPositionIds [0, 1, 2, 3, 4, 5, 6, 7, 8, 9, 10, 11, 12, 13, 14, 15] 1 16 0,
           ctx_resize 1 4 16,
           prepareBuffers 1 1 False,
           embeddingForward [16, 17, 18, 19] (ActBuf 0) 1 4,
           prepareAttnMask [16, 17, 18, 19] 1,
           getPositionIds [16, 17, 18, 19] 1 4 1]
     \<and> (\<exists>pre post. snd r =
              pre @ [expandPrefixCache 1 1 16,
                     forwardAttention 1 (ActBuf 0) (ActBuf (outBuf f)) TmpBuf 4 16 True] @ post)"
proof -
  let ?d = "(example_decoder 1 0 True)\<lparr>prefixSeqLen := 16\<rparr>"
  let ?ids = "[0, 1, 2, 3, 4, 5, 6, 7, 8, 9, 10, 11, 12, 13, 14, 15, 16, 17, 18, 19] :: int list"
  have a: "0 \<le> prefixSeqLen ?d" "prefixSeqLen ?d \<le> to_int 20"
    "to_int 1 * to_int 20 \<le> int (length ?ids)"
    by (simp_all add: example_prefix_fields to_int_def)
  obtain f r where l: "forward_layers (example_Env 1) ?d ?ids (1, 1, 20) 0 False = Some (f, r)"
    and f: "inputSeqLen f = 4" "pastSeqLen f = 16" "ids f = [16, 17, 18, 19]"
    and seven: "take 7 (snd r) =
          [ctx_resize 1 20 0,
           getPositionIds [0, 1, 2, 3, 4, 5, 6, 7, 8, 9, 10, 11, 12, 13, 14, 15] 1 16 0,
           ctx_resize 1 4 16,
           prepareBuffers 1 1 False,
           embeddingForward [16, 17, 18, 19] (ActBuf 0) 1 4,
           prepareAttnMask [16, 17, 18, 19] 1,
           getPositionIds [16, 17, 18, 19] 1 4 1]"
    and adj: "\<And>i. 0 \<le> i \<Longrightarrow> i < 2 \<Longrightarrow> \<exists>pre post. snd r =
              pre @ [expandPrefixCache i 1 16,
                     forwardAttention i (ActBuf 0) (ActBuf (outBuf f)) TmpBuf 4 16 True] @ post"
    using forward_prefix_sharing_split [OF example_prefix_fields(1,2) a, of "example_Env 1" 1 False]
    by (auto simp: example_prefix_fields example_portions embBuf_def to_int_def)
  show ?thesis using l f seven adj [of 1]
    by - (rule exI [where x = f], rule exI [where x = r], simp)
qed

text \<open>
  Claim C10.  With prefix sharing on (and the same conditions on the input, a
  non-negative hidden size and split size), a call with step 0 on sequences of
  \<open>seqLen\<close> tokens, the \<^verbatim>\<open>int\<close> value of \<^verbatim>\<open>dims[2]\<close>, returns and leaves
  \<open>accSeqLen = seqLen\<close>, the full incoming length, although the embedding (the fifth
  call) and the layers process only \<open>inputSeqLen = seqLen - prefixSeqLen\<close> tokens per
  sequence.
\<close>

theorem forward_prefix_accSeqLen:
  assumes "prefixSharing this" "decoder_context this = Some c"
    and "0 \<le> hiddenSize c" "0 \<le> getSplitSize (predictor this)"
    and "0 \<le> prefixSeqLen this" "prefixSeqLen this \<le> to_int S" "to_int U * to_int S \<le> int (length ids0)"
  shows "\<exists>result this' trace. forward E this ids0 (U, B, S) 0 la = Some (result, this', trace)
     \<and> accSeqLen this' = to_int S \<and> initSeqLen this' = to_int S
     \<and> trace ! 4 = embeddingForward (new_token_portion ids0 (to_int U) (to_int S) (prefixSeqLen this)) (ActBuf embBuf) (to_int U)
                      (to_int S - prefixSeqLen this)
     \<and> (\<forall>f r. forward_layers E this ids0 (U, B, S) 0 la = Some (f, r) \<longrightarrow>
            inputSeqLen f = to_int S - prefixSeqLen this \<and> accSeqLen (fst r) = to_int S)"
proof -
  have wf: "(0::int) = 0 \<and> prefixSharing this \<longrightarrow>
           0 \<le> prefixSeqLen this \<and> prefixSeqLen this \<le> to_int S \<and> to_int U * to_int S \<le> int (length ids0)"
    using assms by simp
  obtain result this' trace where
    fw: "forward E this ids0 (U, B, S) 0 la = Some (result, this', trace)"
    using forward_returns [OF assms(2-4) wf, of E B la] by blast
  have cnt: "accSeqLen this' = to_int S" "initSeqLen this' = to_int S" using forward_counters [OF fw] by simp_all
  obtain f r where l: "forward_layers E this ids0 (U, B, S) 0 la = Some (f, r)"
    and seven: "take 7 (snd r) =
          [ctx_resize (to_int U) (to_int S) 0,
           getPositionIds (prefix_portion ids0 (to_int U) (to_int S) (prefixSeqLen this)) (to_int U) (prefixSeqLen this) 0,
           ctx_resize (to_int U) (to_int S - prefixSeqLen this) (prefixSeqLen this),
           prepareBuffers (to_int U) (to_int B) la,
           embeddingForward (new_token_portion ids0 (to_int U) (to_int S) (prefixSeqLen this)) (ActBuf embBuf) (to_int U)
             (to_int S - prefixSeqLen this),
           prepareAttnMask (new_token_portion ids0 (to_int U) (to_int S) (prefixSeqLen this)) 1,
           getPositionIds (new_token_portion ids0 (to_int U) (to_int S) (prefixSeqLen this)) (to_int U) (to_int S - prefixSeqLen this) 1]"
    using forward_layers_sharing [OF assms(1,2,5-7), of E B la] by blast
  obtain post where ext: "trace = snd r @ post"
    using forward_trace_extends [OF l fw] by auto
  have "length (take 7 (snd r)) = 7" unfolding seven by simp
  then have len: "7 \<le> length (snd r)" by simp
  then have "trace ! 4 = snd r ! 4" unfolding ext by (simp add: nth_append)
  also have "\<dots> = take 7 (snd r) ! 4" by simp
  finally have emb: "trace ! 4 = embeddingForward (new_token_portion ids0 (to_int U) (to_int S) (prefixSeqLen this))
                      (ActBuf embBuf) (to_int U) (to_int S - prefixSeqLen this)"
    unfolding seven by simp
  have "\<forall>f r. forward_layers E this ids0 (U, B, S) 0 la = Some (f, r) \<longrightarrow>
            inputSeqLen f = to_int S - prefixSeqLen this \<and> accSeqLen (fst r) = to_int S"
    using forward_layers_facts assms(1) by fastforce
  then show ?thesis using fw cnt emb by blast
qed

theorem forward_prefix_accSeqLen_witness:
  "\<exists>result this' trace.
      forward (example_Env 1) ((example_decoder 1 0 True)\<lparr>prefixSeqLen := 16\<rparr>)
        [0, 1, 2, 3, 4, 5, 6, 7, 8, 9, 10, 11, 12, 13, 14, 15, 16, 17, 18, 19] (1, 1, 20) 0 False
        = Some (result, this', trace)
     \<and> accSeqLen this' = 20 \<and> initSeqLen this' = 20
     \<and> trace ! 4 = embeddingForward [16, 17, 18, 19] (ActBuf 0) 1 4"
proof -
  let ?d = "(example_decoder 1 0 True)\<lparr>prefixSeqLen := 16\<rparr>"
  let ?ids = "[0, 1, 2, 3, 4, 5, 6, 7, 8, 9, 10, 11, 12, 13, 14, 15, 16, 17, 18, 19] :: int list"
  have a: "0 \<le> hiddenSize example_context" "0 \<le> getSplitSize (predictor ?d)"
    "0 \<le> prefixSeqLen ?d" "prefixSeqLen ?d \<le> to_int 20"
    "to_int 1 * to_int 20 \<le> int (length ?ids)"
    by (simp_all add: example_prefix_fields example_decoder_fields to_int_def)
  obtain result this' trace where
    "forward (example_Env 1) ?d ?ids (1, 1, 20) 0 False = Some (result, this', trace)"
    "accSeqLen this' = 20" "initSeqLen this' = 20"
    "trace ! 4 = embeddingForward [16, 17, 18, 19] (ActBuf 0) 1 4"
    using forward_prefix_accSeqLen [OF example_prefix_fields(1,2) a, of "example_Env 1" 1 False]
    by (auto simp: example_prefix_fields example_portions embBuf_def to_int_def)
  then show ?thesis by blast
qed

subsection \<open>Stages before the last\<close>

text \<open>
  What \<^verbatim>\<open>forward\<close> does on a stage that is not the last.  Let the object have a context
  (and, at step 0 with prefix sharing, an input that holds the sequences).  If
  \<open>pp_rank < pp_size - 1\<close>, then \<^verbatim>\<open>forward\<close> returns \<open>(nullptr, 0, 0)\<close>, and its last call
  sends the activation buffer at \<^verbatim>\<open>embBuf\<close>, as the layers left it, with
  \<open>batchSize * inputSeqLen * hiddenSize\<close> elements and tag \<open>100 * pp_rank\<close>, to the
  process whose rank among all processes is \<open>pp_rank + 1\<close>.  Whenever \<^verbatim>\<open>forward\<close> returns a
  pointer that is not null, \<open>pp_rank < pp_size - 1\<close> is false.
\<close>

lemma forward_not_last_stage:
  assumes "decoder_context this = Some c"
    and "st = 0 \<and> prefixSharing this \<longrightarrow>
           0 \<le> prefixSeqLen this \<and> prefixSeqLen this \<le> to_int S
           \<and> to_int U * to_int S \<le> int (length ids0)"
  shows "(pp_rank this < pp_size this - 1 \<longrightarrow>
           (\<exists>f r run. forward_layers E this ids0 (U, B, S) st la = Some (f, r)
              \<and> forward E this ids0 (U, B, S) st la = Some ((None, 0, 0), run)
              \<and> run = invoke E (MPI_Send (ActBuf embBuf) (batchSize f * inputSeqLen f * hiddenSize c)
                                  (pp_rank this + 1) (100 * pp_rank this) MPI_COMM_WORLD) r
              \<and> snd run = snd r @ [MPI_Send (ActBuf embBuf) (batchSize f * inputSeqLen f * hiddenSize c)
                                      (pp_rank this + 1) (100 * pp_rank this) MPI_COMM_WORLD]))
       \<and> (\<forall>p off n run. forward E this ids0 (U, B, S) st la = Some ((Some p, off, n), run) \<longrightarrow>
             \<not> pp_rank this < pp_size this - 1)"
proof -
  obtain f r where l: "forward_layers E this ids0 (U, B, S) st la = Some (f, r)"
    using forward_layers_returns [OF assms] by blast
  note facts = forward_layers_facts [OF l]
  have pp: "pp_rank (fst r) = pp_rank this" "pp_size (fst r) = pp_size this" "ctx f = c"
    using facts assms(1) by (simp_all add: members_def)
  show ?thesis
  proof (intro conjI impI allI)
    assume nl: "pp_rank this < pp_size this - 1"
    have "forward E this ids0 (U, B, S) st la
              = Some ((None, 0, 0),
                      invoke E (MPI_Send (ActBuf embBuf) (batchSize f * inputSeqLen f * hiddenSize c)
                                  (pp_rank this + 1) (100 * pp_rank this) MPI_COMM_WORLD) r)"
      using l pp nl by (simp add: forward_def)
    then show "\<exists>f r run. forward_layers E this ids0 (U, B, S) st la = Some (f, r)
              \<and> forward E this ids0 (U, B, S) st la = Some ((None, 0, 0), run)
              \<and> run = invoke E (MPI_Send (ActBuf embBuf) (batchSize f * inputSeqLen f * hiddenSize c)
                                  (pp_rank this + 1) (100 * pp_rank this) MPI_COMM_WORLD) r
              \<and> snd run = snd r @ [MPI_Send (ActBuf embBuf) (batchSize f * inputSeqLen f * hiddenSize c)
                                      (pp_rank this + 1) (100 * pp_rank this) MPI_COMM_WORLD]"
      using l by simp
  next
    fix p off n run
    assume "forward E this ids0 (U, B, S) st la = Some ((Some p, off, n), run)"
    then show "\<not> pp_rank this < pp_size this - 1"
      using l pp by (auto simp: forward_def)
  qed
qed

lemma CommonDecoder_stage:
  assumes "getPipeline E \<noteq> 0"
  shows "\<exists>w this. CommonDecoder E msgr par cfg = Inr (w, this)
           \<and> pp_size this = getPipeline E \<and> pp_rank this = getColor msgr
           \<and> tp_size this = getSize msgr \<and> tp_rank this = getRank msgr
           \<and> \<not> prefixSharing this
           \<and> decoder_context this
               = Some (new_DecoderContext E
                         \<lparr>arg_layers = num_layer cfg,
                          arg_hiddenSize = head_num cfg * size_per_head cfg,
                          arg_attHeadNum = head_num cfg, arg_kvHeadNum = kv_head_num cfg,
                          arg_imSize = inter_size cfg, arg_vocabSize = vocab_size cfg,
                          arg_embeddingSize = head_num cfg * size_per_head cfg,
                          arg_maxPositions = model_max_length cfg,
                          arg_maxPosEmbed = max_pos_seq_len cfg,
                          arg_maxSeqLength = seq_length cfg\<rparr>
                         (getRank msgr) (getSize msgr))"
  using assms
  by (simp add: CommonDecoder_def Let_def getDecoderContext_fresh c_div_def c_mod_def)

text \<open>
  Claim C8.  The rank that \<^verbatim>\<open>forward\<close> hands to \<^verbatim>\<open>MPI_Send\<close> is \<open>pp_rank + 1\<close> in
  \<^verbatim>\<open>MPI_COMM_WORLD\<close>, and with more than one process per stage that process is not in
  the next stage.  Take 8 processes and 2 stages.  \<open>init\<close> gives the process of world
  rank 0 the group size 4, the group rank 0 and the color 0.  The object constructed
  with this messenger is on stage \<open>pp_rank = 0\<close> of \<open>pp_size = 2\<close>; its \<^verbatim>\<open>forward\<close>, called
  with two sequences of three tokens, returns \<open>(nullptr, 0, 0)\<close> after sending the 24
  elements with tag 0 to world rank 1.  But \<open>init\<close> gives world rank 1 the color 0: it
  is a process of stage 0, which never receives, and the processes of stage 1 are the
  world ranks 4 to 7.
\<close>

theorem forward_sends_to_world_rank:
  "init 8 0 2 = Some (4, 0, 0)
   \<and> (\<exists>w this f r run.
         CommonDecoder (example_Env 2) \<lparr>getSize = 4, getRank = 0, getColor = 0\<rparr> False example_config
           = Inr (w, this)
       \<and> pp_rank this = 0 \<and> pp_size this = 2 \<and> tp_size this = 4
       \<and> forward_layers (example_Env 2) this [1, 2, 3, 4, 5, 6] (2, 1, 3) 0 False = Some (f, r)
       \<and> forward (example_Env 2) this [1, 2, 3, 4, 5, 6] (2, 1, 3) 0 False = Some ((None, 0, 0), run)
       \<and> snd run = snd r @ [MPI_Send (ActBuf 0) 24 1 0 MPI_COMM_WORLD])
   \<and> init 8 1 2 = Some (4, 1, 0)
   \<and> map (\<lambda>R. init 8 R 2) [4, 5, 6, 7] = [Some (4, 0, 1), Some (4, 1, 1), Some (4, 2, 1), Some (4, 3, 1)]"
proof -
  let ?E = "example_Env 2"
  let ?m = "\<lparr>getSize = 4, getRank = 0, getColor = 0\<rparr>"
  have p: "getPipeline ?E = 2" by (simp add: example_Env_def)
  obtain w this where
    d: "CommonDecoder ?E ?m False example_config = Inr (w, this)"
    and st: "pp_size this = 2" "pp_rank this = 0" "tp_size this = 4"
    and ns: "\<not> prefixSharing this"
    and cx: "decoder_context this = Some \<lparr>hiddenSize = 4, attHeadNum = 2, kvHeadNum = 2,
                                            intermediateSize = 8, splitIdx = 0\<rparr>"
    using CommonDecoder_stage [of ?E ?m False example_config]
    by (auto simp: example_Env_def example_config_def)
  have wf: "(0::int) = 0 \<and> prefixSharing this \<longrightarrow>
      0 \<le> prefixSeqLen this \<and> prefixSeqLen this \<le> to_int 3
      \<and> to_int 2 * to_int 3 \<le> int (length [1, 2, 3, 4, 5, 6 :: int])"
    using ns by simp
  have nl: "pp_rank this < pp_size this - 1" using st by simp
  obtain f r run where
    l: "forward_layers ?E this [1, 2, 3, 4, 5, 6] (2, 1, 3) 0 False = Some (f, r)"
    and fw: "forward ?E this [1, 2, 3, 4, 5, 6] (2, 1, 3) 0 False = Some ((None, 0, 0), run)"
    and tr: "snd run = snd r @ [MPI_Send (ActBuf embBuf) (batchSize f * inputSeqLen f * 4)
                                  (pp_rank this + 1) (100 * pp_rank this) MPI_COMM_WORLD]"
    using forward_not_last_stage [OF cx wf, of ?E 1 False] nl by auto
  have "batchSize f = 2" "inputSeqLen f = 3"
    using forward_layers_facts [OF l] ns by (simp_all add: to_int_def)
  then have tr': "snd run = snd r @ [MPI_Send (ActBuf 0) 24 1 0 MPI_COMM_WORLD]"
    using tr st by (simp add: embBuf_def)
  have i0: "init 8 0 2 = Some (4, 0, 0)" "init 8 1 2 = Some (4, 1, 0)"
    by (simp_all add: init_divisible)
  have i1: "map (\<lambda>R. init 8 R 2) [4, 5, 6, 7]
              = [Some (4, 0, 1), Some (4, 1, 1), Some (4, 2, 1), Some (4, 3, 1)]"
    by (simp add: init_divisible)
  have "\<exists>w this f r run.
         CommonDecoder ?E ?m False example_config = Inr (w, this)
       \<and> pp_rank this = 0 \<and> pp_size this = 2 \<and> tp_size this = 4
       \<and> forward_layers ?E this [1, 2, 3, 4, 5, 6] (2, 1, 3) 0 False = Some (f, r)
       \<and> forward ?E this [1, 2, 3, 4, 5, 6] (2, 1, 3) 0 False = Some ((None, 0, 0), run)
       \<and> snd run = snd r @ [MPI_Send (ActBuf 0) 24 1 0 MPI_COMM_WORLD]"
    using d st l fw tr' by blast
  then show ?thesis using i0 i1 by simp
qed

subsection \<open>Reordering the KV cache\<close>

lemma KVCacheTensor_reorder_identity:
  "KVCacheTensor_reorder [0..n - 1] n a b t = t"
proof (intro ext)
  fix s row
  show "KVCacheTensor_reorder [0..n - 1] n a b t s row = t s row"
  proof (cases "0 \<le> row \<and> row < n")
    case True
    then have "[0..n - 1] ! nat row = 0 + int (nat row)" by (intro nth_upto) simp
    then show ?thesis using True by (simp add: KVCacheTensor_reorder_def)
  next
    case False
    then show ?thesis by (auto simp: KVCacheTensor_reorder_def)
  qed
qed

text \<open>
  Claim C5.  For every index array \<open>idx\<close> of \<open>n\<close> entries, each in \<open>[0, n)\<close>,
  repetitions allowed, \<^verbatim>\<open>reorderCache(idx, n)\<close> returns and changes nothing but the KV
  cache, which keeps its layers.  In the key and in the value tensor of every layer,
  every time step outside \<open>[initSeqLen, accSeqLen)\<close>, so every time step in
  \<open>[0, initSeqLen)\<close>, is untouched, while at a time step inside that range row
  \<open>row < n\<close> holds what row \<open>idx[row]\<close> held.  When \<open>idx\<close> is the identity
  \<open>0, \<dots>, n - 1\<close>, the whole object, cache included, is unchanged.
\<close>

theorem reorderCache_generated_steps_only:
  assumes "int (length idx) = n" "\<forall>i\<in>set idx. 0 \<le> i \<and> i < n"
  shows "\<exists>this'. reorderCache this idx n = Some this'
     \<and> this' = this\<lparr>kvCacheMgr := kvCacheMgr this'\<rparr>
     \<and> length (kvCacheMgr this') = length (kvCacheMgr this)
     \<and> (\<forall>l s row. l < length (kvCacheMgr this) \<longrightarrow>
           (\<not> (initSeqLen this \<le> s \<and> s < accSeqLen this) \<longrightarrow>
              fst (kvCacheMgr this' ! l) s row = fst (kvCacheMgr this ! l) s row
              \<and> snd (kvCacheMgr this' ! l) s row = snd (kvCacheMgr this ! l) s row)
           \<and> (initSeqLen this \<le> s \<and> s < accSeqLen this \<and> 0 \<le> row \<and> row < n \<longrightarrow>
              fst (kvCacheMgr this' ! l) s row = fst (kvCacheMgr this ! l) s (idx ! nat row)
              \<and> snd (kvCacheMgr this' ! l) s row = snd (kvCacheMgr this ! l) s (idx ! nat row)))
     \<and> (idx = [0..n - 1] \<longrightarrow> this' = this)"
proof -
  define mgr where "mgr = map (\<lambda>(keys, values).
                        (KVCacheTensor_reorder idx n (initSeqLen this) (accSeqLen this) keys,
                         KVCacheTensor_reorder idx n (initSeqLen this) (accSeqLen this) values))
                     (kvCacheMgr this)"
  have r: "reorderCache this idx n = Some (this\<lparr>kvCacheMgr := mgr\<rparr>)"
    using assms by (simp add: reorderCache_def KVCacheManager_reorderCache_def mgr_def)
  have at: "mgr ! l = (KVCacheTensor_reorder idx n (initSeqLen this) (accSeqLen this) (fst (kvCacheMgr this ! l)),
                       KVCacheTensor_reorder idx n (initSeqLen this) (accSeqLen this) (snd (kvCacheMgr this ! l)))"
    if "l < length (kvCacheMgr this)" for l
    using that by (simp add: mgr_def case_prod_beta)
  have ident: "this\<lparr>kvCacheMgr := mgr\<rparr> = this" if "idx = [0..n - 1]"
  proof -
    have "mgr = map (\<lambda>kv. kv) (kvCacheMgr this)"
      unfolding mgr_def that by (intro map_cong) (auto simp: KVCacheTensor_reorder_identity)
    then show ?thesis by simp
  qed
  show ?thesis
    using r at ident by (auto simp: mgr_def KVCacheTensor_reorder_def)
qed

theorem reorderCache_generated_steps_only_witness:
  "\<exists>this'. reorderCache example_cache_decoder [1, 1, 0] 3 = Some this'
     \<and> length (kvCacheMgr this') = 1
     \<and> fst (kvCacheMgr this' ! 0) 3 0 = (3, 1) \<and> snd (kvCacheMgr this' ! 0) 2 2 = (2, 10)
     \<and> fst (kvCacheMgr this' ! 0) 1 0 = (1, 0) \<and> snd (kvCacheMgr this' ! 0) 4 2 = (4, 12)
     \<and> reorderCache example_cache_decoder [0, 1, 2] 3 = Some example_cache_decoder"
proof -
  have a: "int (length [1, 1, 0 :: int]) = 3" "\<forall>i\<in>set [1, 1, 0 :: int]. 0 \<le> i \<and> i < 3" by simp_all
  have b: "int (length [0, 1, 2 :: int]) = 3" "\<forall>i\<in>set [0, 1, 2 :: int]. 0 \<le> i \<and> i < 3" by simp_all
  have f: "initSeqLen example_cache_decoder = 2" "accSeqLen example_cache_decoder = 4"
    "kvCacheMgr example_cache_decoder = [(\<lambda>s row. (s, row), \<lambda>s row. (s, 10 + row))]"
    by (simp_all add: example_cache_decoder_def)
  have u: "[0..3 - 1] = [0, 1, 2 :: int]" by (simp add: upto_rec1)
  obtain this' where r: "reorderCache example_cache_decoder [1, 1, 0] 3 = Some this'"
    and len: "length (kvCacheMgr this') = 1"
    and cells: "\<And>l s row. l < 1 \<Longrightarrow>
           (\<not> (2 \<le> s \<and> s < 4) \<longrightarrow>
              fst (kvCacheMgr this' ! l) s row = fst ([(\<lambda>s row. (s, row), \<lambda>s row. (s, 10 + row))] ! l) s row
              \<and> snd (kvCacheMgr this' ! l) s row = snd ([(\<lambda>s row. (s, row), \<lambda>s row. (s, 10 + row))] ! l) s row)
           \<and> (2 \<le> s \<and> s < 4 \<and> 0 \<le> row \<and> row < 3 \<longrightarrow>
              fst (kvCacheMgr this' ! l) s row
                = fst ([(\<lambda>s row. (s, row), \<lambda>s row. (s, 10 + row))] ! l) s ([1, 1, 0] ! nat row)
              \<and> snd (kvCacheMgr this' ! l) s row
                = snd ([(\<lambda>s row. (s, row), \<lambda>s row. (s, 10 + row))] ! l) s ([1, 1, 0] ! nat row))"
    using reorderCache_generated_steps_only [OF a, of example_cache_decoder] unfolding f by auto
  have i: "reorderCache example_cache_decoder [0, 1, 2] 3 = Some example_cache_decoder"
    using reorderCache_generated_steps_only [OF b, of example_cache_decoder] unfolding u by auto
  have "fst (kvCacheMgr this' ! 0) 3 0 = (3, 1)" "snd (kvCacheMgr this' ! 0) 2 2 = (2, 10)"
    "fst (kvCacheMgr this' ! 0) 1 0 = (1, 0)" "snd (kvCacheMgr this' ! 0) 4 2 = (4, 12)"
    using cells [of 0 3 0] cells [of 0 2 2] cells [of 0 1 0] cells [of 0 4 2] by simp_all
  then show ?thesis using r len i by simp
qed

end
